theory Spec2Isabelle
  imports Main "HOL-Library.Word" "HOL-Library.Multiset"
begin

section \<open>The board of ctext/minesweeper.c\<close>

text \<open>
  The embedding follows \<^verbatim>\<open>src/ctext/minesweeper.c\<close>. The board is the C struct, with its two
  fixed-size arrays as lists of \<open>MAX_BOARD_AREA\<close> entries; a cell is addressed row-major as
  \<open>y * size + x\<close>. The field \<^verbatim>\<open>size\<close> is called \<open>size_b\<close> here. Coordinates and counters
  are natural numbers: every operation below is stated for coordinates inside the grid, where
  neither \<^verbatim>\<open>unsigned int\<close> arithmetic wraps nor the casts to \<^verbatim>\<open>int\<close> change a value.
\<close>

type_synonym uint8_t = "8 word"

definition MAX_BOARD_SIZE :: nat where
  "MAX_BOARD_SIZE = 26"

definition MAX_BOARD_AREA :: nat where
  "MAX_BOARD_AREA = MAX_BOARD_SIZE * MAX_BOARD_SIZE"

definition CELL_MINE :: uint8_t where
  "CELL_MINE = 255"

definition CELL_EMPTY :: uint8_t where
  "CELL_EMPTY = 0"

datatype OverlayCell = OverlayCellHidden | OverlayCellVisible | OverlayCellMarked

record Board =
  size_b :: nat
  cells :: "uint8_t list"
  overlay :: "OverlayCell list"

datatype GameState = GameStateUnfinished | GameStateWon | GameStateLost

text \<open>
  What the C program leaves undefined or aborts on is a value of the model: a failed
  \<^verbatim>\<open>assert\<close>, an array access outside \<open>MAX_BOARD_AREA\<close> entries, and a recursion that
  has used up the depth it was given.
\<close>

datatype error = AssertionFailed | OutOfBounds | OutOfFuel

text \<open>\<^verbatim>\<open>static struct Board board = {0};\<close>\<close>

definition static_board :: Board where
  "static_board =
     \<lparr>size_b = 0, cells = replicate MAX_BOARD_AREA 0,
      overlay = replicate MAX_BOARD_AREA OverlayCellHidden\<rparr>"

text \<open>The row-major index \<^verbatim>\<open>y * board->size + x\<close>.\<close>

definition cell_index :: "Board \<Rightarrow> nat \<Rightarrow> nat \<Rightarrow> nat" where
  "cell_index b x y = y * size_b b + x"

text \<open>
  The bounds of the nested pair of \<^verbatim>\<open>for\<close> statements over the neighbours,
  \<^verbatim>\<open>for (j = max(y - 1, 0); j < min(y + 2, size); j++) for (i = max(x - 1, 0); i < min(x + 2, size); i++)\<close>,
  as the list of the pairs \<open>(i, j)\<close> in the order of the iteration.
\<close>

definition lo :: "nat \<Rightarrow> nat" where
  "lo v = nat (max (int v - 1) 0)"

definition hi :: "nat \<Rightarrow> nat \<Rightarrow> nat" where
  "hi sz v = min (v + 2) sz"

definition block3 :: "nat \<Rightarrow> nat \<Rightarrow> nat \<Rightarrow> (nat \<times> nat) list" where
  "block3 sz x y = concat (map (\<lambda>j. map (\<lambda>i. (i, j)) [lo x..<hi sz x]) [lo y..<hi sz y])"

text \<open>
  The nested pair of \<^verbatim>\<open>for\<close> statements over the whole grid,
  \<^verbatim>\<open>for (y = 0; y < size; y++) for (x = 0; x < size; x++)\<close>.
\<close>

definition grid :: "nat \<Rightarrow> (nat \<times> nat) list" where
  "grid sz = concat (map (\<lambda>y. map (\<lambda>x. (x, y)) [0..<sz]) [0..<sz])"

subsection \<open>Well-formed boards\<close>

text \<open>
  The arrays of the struct have \<open>MAX_BOARD_AREA\<close> entries, and \<^verbatim>\<open>board_init\<close> asserts
  that the size is at most \<open>MAX_BOARD_SIZE\<close>.
\<close>

definition wf_board :: "Board \<Rightarrow> bool" where
  "wf_board b \<longleftrightarrow>
     length (cells b) = MAX_BOARD_AREA \<and> length (overlay b) = MAX_BOARD_AREA \<and>
     size_b b \<le> MAX_BOARD_SIZE"

definition in_grid :: "Board \<Rightarrow> nat \<times> nat \<Rightarrow> bool" where
  "in_grid b c \<longleftrightarrow> fst c < size_b b \<and> snd c < size_b b"

definition overlay_at :: "Board \<Rightarrow> nat \<times> nat \<Rightarrow> OverlayCell" where
  "overlay_at b c = overlay b ! cell_index b (fst c) (snd c)"

definition cell_at :: "Board \<Rightarrow> nat \<times> nat \<Rightarrow> uint8_t" where
  "cell_at b c = cells b ! cell_index b (fst c) (snd c)"

subsection \<open>board_init\<close>

text \<open>
  \<^verbatim>\<open>memset\<close> counts bytes. The cells are bytes, so \<^verbatim>\<open>memset(board->cells, 0, MAX_BOARD_AREA)\<close>
  clears all of them. An overlay entry is an \<^verbatim>\<open>enum\<close>, four bytes wide on the usual ABIs, so
  \<^verbatim>\<open>memset(board->overlay, 0, MAX_BOARD_AREA)\<close> clears the first \<open>MAX_BOARD_AREA div 4\<close>
  entries and leaves the others as they were; the program calls \<^verbatim>\<open>board_init\<close> once, on the
  zero-initialised static board.
\<close>

definition sizeof_OverlayCell :: nat where
  "sizeof_OverlayCell = 4"

definition memset_entries :: "'a list \<Rightarrow> 'a \<Rightarrow> nat \<Rightarrow> 'a list" where
  "memset_entries xs v n = replicate (min n (length xs)) v @ drop n xs"

text \<open>
  The inside-out Fisher-Yates loop. \<open>rand i\<close> is the value of the \<open>i\<close>-th call of
  \<^verbatim>\<open>rand()\<close>, which is the call of iteration \<open>i\<close>.
\<close>

definition shuffle_step :: "(nat \<Rightarrow> nat) \<Rightarrow> nat \<Rightarrow> nat list \<Rightarrow> nat list" where
  "shuffle_step rand i s =
     (let j = rand i mod (i + 1);
          s1 = (if j \<noteq> i then s[i := s ! j] else s)
      in s1[j := i])"

definition shuffled_indices :: "(nat \<Rightarrow> nat) \<Rightarrow> nat \<Rightarrow> nat list" where
  "shuffled_indices rand area =
     fold (shuffle_step rand) [0..<min area MAX_BOARD_AREA] (replicate MAX_BOARD_AREA 0)"

text \<open>
  \<^verbatim>\<open>for (i = 0; i < num_mines; i++) board->cells[shuffled_indices[i]] = CELL_MINE;\<close>
  The loop has no bound of its own: \<open>i\<close> runs up to \<open>num_mines\<close>, and the array has
  \<open>MAX_BOARD_AREA\<close> entries.
\<close>

fun place_mines :: "nat list \<Rightarrow> nat list \<Rightarrow> uint8_t list \<Rightarrow> error + uint8_t list" where
  "place_mines s [] c = Inr c"
| "place_mines s (i # is) c =
     (if MAX_BOARD_AREA \<le> i then Inl OutOfBounds
      else if MAX_BOARD_AREA \<le> s ! i then Inl OutOfBounds
      else place_mines s is (c[s ! i := CELL_MINE]))"

text \<open>The count of the inner iteration, which skips the cell itself with \<^verbatim>\<open>continue\<close>.\<close>

definition count_mines :: "Board \<Rightarrow> nat \<Rightarrow> nat \<Rightarrow> nat" where
  "count_mines b x y =
     length (filter (\<lambda>(i, j). \<not> (i = x \<and> j = y) \<and> cells b ! cell_index b i j = CELL_MINE)
       (block3 (size_b b) x y))"

definition number_cell :: "nat \<times> nat \<Rightarrow> Board \<Rightarrow> Board" where
  "number_cell c b =
     (case c of (x, y) \<Rightarrow>
        let n = cell_index b x y in
        if cells b ! n \<noteq> CELL_MINE
        then b\<lparr>cells := (cells b)[n := of_nat (count_mines b x y)]\<rparr>
        else b)"

definition board_init :: "(nat \<Rightarrow> nat) \<Rightarrow> Board \<Rightarrow> nat \<Rightarrow> nat \<Rightarrow> error + Board" where
  "board_init rand b sz num_mines =
     (if \<not> (sz > 0 \<and> sz \<le> MAX_BOARD_SIZE) then Inl AssertionFailed
      else
        let b1 = b\<lparr>size_b := sz,
                   cells := memset_entries (cells b) 0 MAX_BOARD_AREA,
                   overlay := memset_entries (overlay b) OverlayCellHidden
                                (MAX_BOARD_AREA div sizeof_OverlayCell)\<rparr>;
            area = sz * sz
        in case place_mines (shuffled_indices rand area) [0..<num_mines] (cells b1) of
             Inl e \<Rightarrow> Inl e
           | Inr c \<Rightarrow> Inr (fold number_cell (grid sz) (b1\<lparr>cells := c\<rparr>)))"

text \<open>
  The range check of \<^verbatim>\<open>main\<close> on the number of mines, before it calls \<^verbatim>\<open>board_init\<close>:
  \<^verbatim>\<open>if (mines > MAX_BOARD_AREA) mines = MAX_BOARD_AREA;\<close>
\<close>

definition clamp_mines :: "nat \<Rightarrow> nat" where
  "clamp_mines mines = (if mines > MAX_BOARD_AREA then MAX_BOARD_AREA else mines)"

subsection \<open>board_reveal\<close>

text \<open>
  The function calls itself inside its nested iteration, each call on the board the previous one
  left. \<open>reveal_block\<close> is that iteration, over the list of the pairs \<open>(i, j)\<close> still to
  visit. The first argument of the model bounds the depth of the recursion; \<open>OutOfFuel\<close>
  says that the bound was too small.
\<close>

fun board_reveal :: "nat \<Rightarrow> Board \<Rightarrow> nat \<Rightarrow> nat \<Rightarrow> error + Board"
  and reveal_block :: "nat \<Rightarrow> (nat \<times> nat) list \<Rightarrow> Board \<Rightarrow> error + Board" where
  "board_reveal 0 b x y = Inl OutOfFuel"
| "board_reveal (Suc fuel) b x y =
     (let n = cell_index b x y in
      if MAX_BOARD_AREA \<le> n then Inl OutOfBounds
      else if overlay b ! n \<noteq> OverlayCellHidden then Inr b
      else
        let b1 = b\<lparr>overlay := (overlay b)[n := OverlayCellVisible]\<rparr> in
        if cells b1 ! n = CELL_EMPTY
        then reveal_block fuel (block3 (size_b b1) x y) b1
        else Inr b1)"
| "reveal_block fuel [] b = Inr b"
| "reveal_block fuel ((i, j) # cs) b =
     (case board_reveal fuel b i j of
        Inl e \<Rightarrow> Inl e
      | Inr b' \<Rightarrow> reveal_block fuel cs b')"

text \<open>
  The same recursion as a relation between the board before and the board after, for
  well-formed boards and cells of the grid: \<open>reveals b x y b'\<close> for one call and
  \<open>reveals_block b cs b'\<close> for the iteration over the neighbours.
\<close>

inductive reveals :: "Board \<Rightarrow> nat \<Rightarrow> nat \<Rightarrow> Board \<Rightarrow> bool"
  and reveals_block :: "Board \<Rightarrow> (nat \<times> nat) list \<Rightarrow> Board \<Rightarrow> bool" where
  reveals_not_hidden:
    "wf_board b \<Longrightarrow> in_grid b (x, y) \<Longrightarrow> overlay_at b (x, y) \<noteq> OverlayCellHidden \<Longrightarrow>
     reveals b x y b"
| reveals_single:
    "wf_board b \<Longrightarrow> in_grid b (x, y) \<Longrightarrow> overlay_at b (x, y) = OverlayCellHidden \<Longrightarrow>
     cell_at b (x, y) \<noteq> CELL_EMPTY \<Longrightarrow>
     reveals b x y (b\<lparr>overlay := (overlay b)[cell_index b x y := OverlayCellVisible]\<rparr>)"
| reveals_flood:
    "wf_board b \<Longrightarrow> in_grid b (x, y) \<Longrightarrow> overlay_at b (x, y) = OverlayCellHidden \<Longrightarrow>
     cell_at b (x, y) = CELL_EMPTY \<Longrightarrow>
     reveals_block (b\<lparr>overlay := (overlay b)[cell_index b x y := OverlayCellVisible]\<rparr>)
       (block3 (size_b b) x y) b' \<Longrightarrow>
     reveals b x y b'"
| reveals_block_nil:
    "reveals_block b [] b"
| reveals_block_cons:
    "reveals b i j b1 \<Longrightarrow> reveals_block b1 cs b' \<Longrightarrow> reveals_block b ((i, j) # cs) b'"

text \<open>
  \<^verbatim>\<open>board_reveal\<close> once more, returning beside the board the list of the cells that the
  call and the calls inside it found Hidden and made Visible, in the order of the writes.
\<close>

fun board_reveal_trace :: "nat \<Rightarrow> Board \<Rightarrow> nat \<Rightarrow> nat \<Rightarrow> error + Board \<times> (nat \<times> nat) list"
  and reveal_block_trace ::
    "nat \<Rightarrow> (nat \<times> nat) list \<Rightarrow> Board \<Rightarrow> error + Board \<times> (nat \<times> nat) list" where
  "board_reveal_trace 0 b x y = Inl OutOfFuel"
| "board_reveal_trace (Suc fuel) b x y =
     (let n = cell_index b x y in
      if MAX_BOARD_AREA \<le> n then Inl OutOfBounds
      else if overlay b ! n \<noteq> OverlayCellHidden then Inr (b, [])
      else
        let b1 = b\<lparr>overlay := (overlay b)[n := OverlayCellVisible]\<rparr> in
        if cells b1 ! n = CELL_EMPTY
        then (case reveal_block_trace fuel (block3 (size_b b1) x y) b1 of
                Inl e \<Rightarrow> Inl e
              | Inr (b', t) \<Rightarrow> Inr (b', (x, y) # t))
        else Inr (b1, [(x, y)]))"
| "reveal_block_trace fuel [] b = Inr (b, [])"
| "reveal_block_trace fuel ((i, j) # cs) b =
     (case board_reveal_trace fuel b i j of
        Inl e \<Rightarrow> Inl e
      | Inr (b1, t1) \<Rightarrow>
          (case reveal_block_trace fuel cs b1 of
             Inl e \<Rightarrow> Inl e
           | Inr (b', t2) \<Rightarrow> Inr (b', t1 @ t2)))"

text \<open>
  What a call may do to a board: the size and the cells stay, and an overlay entry either
  stays or goes from Hidden to Visible.
\<close>

definition reveal_ext :: "Board \<Rightarrow> Board \<Rightarrow> bool" where
  "reveal_ext b b' \<longleftrightarrow>
     size_b b' = size_b b \<and> cells b' = cells b \<and>
     length (overlay b') = length (overlay b) \<and>
     (\<forall>n. overlay b' ! n = overlay b ! n \<or>
          (overlay b ! n = OverlayCellHidden \<and> overlay b' ! n = OverlayCellVisible))"

text \<open>The number of Hidden cells of the grid.\<close>

definition hidden_count :: "Board \<Rightarrow> nat" where
  "hidden_count b =
     length (filter (\<lambda>c. overlay_at b c = OverlayCellHidden) (grid (size_b b)))"

subsection \<open>board_mark\<close>

definition board_mark :: "Board \<Rightarrow> nat \<Rightarrow> nat \<Rightarrow> error + Board" where
  "board_mark b x y =
     (let n = cell_index b x y in
      if MAX_BOARD_AREA \<le> n then Inl OutOfBounds
      else case overlay b ! n of
             OverlayCellHidden \<Rightarrow> Inr (b\<lparr>overlay := (overlay b)[n := OverlayCellMarked]\<rparr>)
           | OverlayCellMarked \<Rightarrow> Inr (b\<lparr>overlay := (overlay b)[n := OverlayCellHidden]\<rparr>)
           | OverlayCellVisible \<Rightarrow> Inr b)"

subsection \<open>board_check_game_state\<close>

text \<open>
  The function takes the board by pointer; the model returns the board it leaves beside the
  result. Each of the two scans returns at the first cell that satisfies its test. On a board
  of a size up to \<open>MAX_BOARD_SIZE\<close> every index of the scans is inside the arrays.
\<close>

definition visible_mine :: "Board \<Rightarrow> nat \<times> nat \<Rightarrow> bool" where
  "visible_mine b c =
     (case c of (x, y) \<Rightarrow>
        overlay b ! cell_index b x y = OverlayCellVisible \<and> cells b ! cell_index b x y = CELL_MINE)"

definition hidden_safe :: "Board \<Rightarrow> nat \<times> nat \<Rightarrow> bool" where
  "hidden_safe b c =
     (case c of (x, y) \<Rightarrow>
        overlay b ! cell_index b x y = OverlayCellHidden \<and> cells b ! cell_index b x y \<noteq> CELL_MINE)"

definition board_check_game_state :: "Board \<Rightarrow> GameState \<times> Board" where
  "board_check_game_state b =
     (if list_ex (visible_mine b) (grid (size_b b)) then (GameStateLost, b)
      else if list_ex (hidden_safe b) (grid (size_b b)) then (GameStateUnfinished, b)
      else (GameStateWon, b))"

text \<open>\<open>n\<close> calls in succession, each on the board the previous call left.\<close>

fun check_repeatedly :: "nat \<Rightarrow> Board \<Rightarrow> GameState list \<times> Board" where
  "check_repeatedly 0 b = ([], b)"
| "check_repeatedly (Suc n) b =
     (case board_check_game_state b of
        (r, b') \<Rightarrow> (case check_repeatedly n b' of (rs, b'') \<Rightarrow> (r # rs, b'')))"

subsection \<open>The properties of a numbered board\<close>

text \<open>
  Two cells of the grid are neighbours when they differ and their columns and their rows
  are at most one apart: the 3 by 3 block around a cell, without the cell, cut at the edges
  of the grid.
\<close>

definition adj8 :: "Board \<Rightarrow> nat \<times> nat \<Rightarrow> nat \<times> nat \<Rightarrow> bool" where
  "adj8 b p q \<longleftrightarrow>
     in_grid b p \<and> in_grid b q \<and> p \<noteq> q \<and>
     fst p \<le> fst q + 1 \<and> fst q \<le> fst p + 1 \<and> snd p \<le> snd q + 1 \<and> snd q \<le> snd p + 1"

text \<open>The number of neighbours of a cell that hold a mine.\<close>

definition neighbour_mines :: "Board \<Rightarrow> nat \<times> nat \<Rightarrow> nat" where
  "neighbour_mines b p =
     length (filter (\<lambda>q. adj8 b p q \<and> cell_at b q = CELL_MINE) (grid (size_b b)))"

text \<open>Every cell of the grid without a mine holds the number of its neighbours with a mine.\<close>

definition counts_ok :: "Board \<Rightarrow> bool" where
  "counts_ok b \<longleftrightarrow>
     list_all (\<lambda>p. cell_at b p = CELL_MINE \<or> unat (cell_at b p) = neighbour_mines b p)
       (grid (size_b b))"

text \<open>The number of cells of the grid that hold a mine.\<close>

definition mine_count :: "Board \<Rightarrow> nat" where
  "mine_count b = length (filter (\<lambda>p. cell_at b p = CELL_MINE) (grid (size_b b)))"

text \<open>
  The invariant of the Fisher-Yates loop after \<open>k\<close> iterations: the first \<open>k\<close> entries are
  a permutation of the indices below \<open>k\<close>, and the entries from \<open>k\<close> on are still 0.
\<close>

definition shuffle_inv :: "nat \<Rightarrow> nat list \<Rightarrow> bool" where
  "shuffle_inv k s \<longleftrightarrow>
     length s = MAX_BOARD_AREA \<and> mset (take k s) = mset [0..<k] \<and>
     (\<forall>i. k \<le> i \<and> i < MAX_BOARD_AREA \<longrightarrow> s ! i = 0)"

text \<open>
  The numbering loop keeps the size, the overlay and the set of cells that hold a mine.
\<close>

definition same_mines :: "Board \<Rightarrow> Board \<Rightarrow> bool" where
  "same_mines b b' \<longleftrightarrow>
     size_b b' = size_b b \<and> overlay b' = overlay b \<and> length (cells b') = length (cells b) \<and>
     (\<forall>n. (cells b' ! n = CELL_MINE) = (cells b ! n = CELL_MINE))"

subsection \<open>Reachable boards\<close>

text \<open>
  The boards of a game: what \<^verbatim>\<open>board_init\<close> returns on the static board, and what
  \<^verbatim>\<open>board_reveal\<close> and \<^verbatim>\<open>board_mark\<close> return from such a board for a cell of the grid
  (\<^verbatim>\<open>main\<close> rejects other coordinates).
\<close>

inductive reachable :: "Board \<Rightarrow> bool" where
  reachable_init:
    "board_init rand static_board sz num_mines = Inr b \<Longrightarrow> reachable b"
| reachable_reveal:
    "reachable b \<Longrightarrow> x < size_b b \<Longrightarrow> y < size_b b \<Longrightarrow> board_reveal fuel b x y = Inr b' \<Longrightarrow>
     reachable b'"
| reachable_mark:
    "reachable b \<Longrightarrow> x < size_b b \<Longrightarrow> y < size_b b \<Longrightarrow> board_mark b x y = Inr b' \<Longrightarrow>
     reachable b'"

subsection \<open>The region that a flood reveal opens\<close>

text \<open>
  The connected zero-region of a cell \<open>p0\<close>: the cells with the value \<open>CELL_EMPTY\<close> that a
  path of neighbouring cells with the value \<open>CELL_EMPTY\<close> joins to \<open>p0\<close>.
\<close>

inductive_set zero_region :: "Board \<Rightarrow> nat \<times> nat \<Rightarrow> (nat \<times> nat) set"
  for b :: Board and p0 :: "nat \<times> nat" where
  zero_region_start:
    "in_grid b p0 \<Longrightarrow> cell_at b p0 = CELL_EMPTY \<Longrightarrow> p0 \<in> zero_region b p0"
| zero_region_step:
    "p \<in> zero_region b p0 \<Longrightarrow> adj8 b p q \<Longrightarrow> cell_at b q = CELL_EMPTY \<Longrightarrow>
     q \<in> zero_region b p0"

text \<open>A numbered cell holds a number from 1 to 8.\<close>

definition numbered :: "Board \<Rightarrow> nat \<times> nat \<Rightarrow> bool" where
  "numbered b q \<longleftrightarrow> 1 \<le> unat (cell_at b q) \<and> unat (cell_at b q) \<le> 8"

text \<open>The numbered cells outside a set of cells that have a neighbour in it.\<close>

definition border :: "Board \<Rightarrow> (nat \<times> nat) set \<Rightarrow> (nat \<times> nat) set" where
  "border b Z = {q. q \<notin> Z \<and> numbered b q \<and> (\<exists>p\<in>Z. adj8 b p q)}"

definition visible_cells :: "Board \<Rightarrow> (nat \<times> nat) set" where
  "visible_cells b = {c. in_grid b c \<and> overlay_at b c = OverlayCellVisible}"

text \<open>
  Two notions for the proof of the flood reveal. A set of cells is closed when it holds the
  3 by 3 block of each of its cells with the value \<open>CELL_EMPTY\<close>. The frontier of a board
  is the set of its Visible cells with the value \<open>CELL_EMPTY\<close> that still have a Hidden cell
  in their block.
\<close>

definition flood_closed :: "Board \<Rightarrow> (nat \<times> nat) set \<Rightarrow> bool" where
  "flood_closed b T \<longleftrightarrow>
     (\<forall>p\<in>T. in_grid b p \<and>
        (cell_at b p = CELL_EMPTY \<longrightarrow> set (block3 (size_b b) (fst p) (snd p)) \<subseteq> T))"

definition frontier :: "Board \<Rightarrow> (nat \<times> nat) set" where
  "frontier b =
     {p. in_grid b p \<and> overlay_at b p = OverlayCellVisible \<and> cell_at b p = CELL_EMPTY \<and>
         (\<exists>q\<in>set (block3 (size_b b) (fst p) (snd p)). overlay_at b q = OverlayCellHidden)}"

subsection \<open>Sequencing and example boards\<close>

text \<open>Running an operation on the board the previous one returned, if it returned one.\<close>

definition and_then :: "error + 'a \<Rightarrow> ('a \<Rightarrow> error + 'b) \<Rightarrow> error + 'b" where
  "and_then r f = (case r of Inl e \<Rightarrow> Inl e | Inr v \<Rightarrow> f v)"

text \<open>A \<^verbatim>\<open>rand()\<close> that returns 0 at every call.\<close>

definition rand_zero :: "nat \<Rightarrow> nat" where
  "rand_zero i = 0"

text \<open>
  A 3 by 3 board with one mine in the corner \<open>(2, 2)\<close>, as \<^verbatim>\<open>board_init\<close> numbers it, with
  every cell hidden.
\<close>

definition example_board :: Board where
  "example_board =
     \<lparr>size_b = 3,
      cells = [0, 0, 0, 0, 1, 1, 0, 1, 255] @ replicate (MAX_BOARD_AREA - 9) 0,
      overlay = replicate MAX_BOARD_AREA OverlayCellHidden\<rparr>"

text \<open>The example board after \<^verbatim>\<open>board_reveal\<close> on the cell \<open>(1, 1)\<close>, which holds a 1.\<close>

definition example_revealed :: Board where
  "example_revealed = example_board\<lparr>overlay := (overlay example_board)[4 := OverlayCellVisible]\<rparr>"

section \<open>Basic facts\<close>

lemma set_grid: "set (grid sz) = {c. fst c < sz \<and> snd c < sz}"
  by (auto simp: grid_def)

lemma list_ex_grid:
  "list_ex P (grid sz) \<longleftrightarrow> (\<exists>c. fst c < sz \<and> snd c < sz \<and> P c)"
  by (auto simp: list_ex_iff set_grid)

lemma cell_index_bound:
  assumes "size_b b \<le> MAX_BOARD_SIZE" "x < size_b b" "y < size_b b"
  shows "cell_index b x y < MAX_BOARD_AREA"
proof -
  have "y * size_b b + x < (y + 1) * size_b b"
    using assms by simp
  also have "\<dots> \<le> size_b b * size_b b"
    using assms by (intro mult_le_mono1) simp
  also have "\<dots> \<le> MAX_BOARD_AREA"
    unfolding MAX_BOARD_AREA_def using assms by (simp add: mult_le_mono)
  finally show ?thesis
    by (simp add: cell_index_def)
qed

text \<open>Two cells of the grid with the same index are the same cell.\<close>

lemma cell_index_inj:
  assumes "x < size_b b" "x' < size_b b" "cell_index b x y = cell_index b x' y'"
  shows "x = x' \<and> y = y'"
proof -
  have "(y * size_b b + x) mod size_b b = (y' * size_b b + x') mod size_b b"
    using assms(3) by (simp add: cell_index_def)
  then have x: "x = x'"
    using assms(1,2) by simp
  then have "y * size_b b = y' * size_b b"
    using assms(3) by (simp add: cell_index_def)
  then have "y = y'"
    using assms(1) by simp
  with x show ?thesis by simp
qed

lemma in_grid_index:
  "wf_board b \<Longrightarrow> in_grid b c \<Longrightarrow> cell_index b (fst c) (snd c) < MAX_BOARD_AREA"
  by (simp add: wf_board_def in_grid_def cell_index_bound)

lemma cell_index_overlay_update [simp]:
  "cell_index (b\<lparr>overlay := ov\<rparr>) x y = cell_index b x y"
  by (simp add: cell_index_def)

lemma in_grid_overlay_update [simp]:
  "in_grid (b\<lparr>overlay := ov\<rparr>) c = in_grid b c"
  by (simp add: in_grid_def)

lemma cell_at_overlay_update [simp]:
  "cell_at (b\<lparr>overlay := ov\<rparr>) c = cell_at b c"
  by (simp add: cell_at_def)

lemma overlay_at_update_same:
  "cell_index b x y < length (overlay b) \<Longrightarrow>
   overlay_at (b\<lparr>overlay := (overlay b)[cell_index b x y := v]\<rparr>) (x, y) = v"
  by (simp add: overlay_at_def)

lemma overlay_at_update_other:
  assumes "in_grid b c" "x < size_b b" "c \<noteq> (x, y)"
  shows "overlay_at (b\<lparr>overlay := (overlay b)[cell_index b x y := v]\<rparr>) c = overlay_at b c"
proof -
  have "cell_index b (fst c) (snd c) \<noteq> cell_index b x y"
    using assms cell_index_inj [of "fst c" b x "snd c" y]
    by (auto simp: in_grid_def)
  then show ?thesis
    by (simp add: overlay_at_def)
qed

lemma wf_example_board: "wf_board example_board"
  by (simp add: wf_board_def example_board_def MAX_BOARD_AREA_def MAX_BOARD_SIZE_def)

section \<open>board_mark\<close>

text \<open>
  Claim C6. On a well-formed board and for coordinates inside the grid, \<^verbatim>\<open>board_mark\<close>
  returns a board; the overlay of the cell goes from Hidden to Marked, from Marked to Hidden,
  and stays Visible; no other overlay entry, no cell value and not the size changes; and a
  second \<^verbatim>\<open>board_mark\<close> on the same cell gives back the board it started from.
\<close>

theorem board_mark_toggle:
  assumes "wf_board b" "x < size_b b" "y < size_b b"
  shows "\<exists>b'. board_mark b x y = Inr b' \<and>
           size_b b' = size_b b \<and> cells b' = cells b \<and>
           length (overlay b') = length (overlay b) \<and>
           overlay_at b' (x, y) =
             (case overlay_at b (x, y) of
                OverlayCellHidden \<Rightarrow> OverlayCellMarked
              | OverlayCellMarked \<Rightarrow> OverlayCellHidden
              | OverlayCellVisible \<Rightarrow> OverlayCellVisible) \<and>
           (\<forall>n. n \<noteq> cell_index b x y \<longrightarrow> overlay b' ! n = overlay b ! n) \<and>
           (\<forall>c. in_grid b c \<and> c \<noteq> (x, y) \<longrightarrow> overlay_at b' c = overlay_at b c) \<and>
           board_mark b' x y = Inr b"
proof -
  let ?n = "cell_index b x y"
  define v where "v = (case overlay b ! ?n of
      OverlayCellHidden \<Rightarrow> OverlayCellMarked
    | OverlayCellMarked \<Rightarrow> OverlayCellHidden
    | OverlayCellVisible \<Rightarrow> OverlayCellVisible)"
  define b' where "b' = b\<lparr>overlay := (overlay b)[?n := v]\<rparr>"
  have n: "?n < MAX_BOARD_AREA"
    using assms by (simp add: wf_board_def cell_index_bound)
  then have len: "?n < length (overlay b)"
    using assms(1) by (simp add: wf_board_def)
  have vis: "b' = b" if "overlay b ! ?n = OverlayCellVisible"
    using that list_update_id [of "overlay b" ?n] by (simp add: b'_def v_def)
  have run: "board_mark b x y = Inr b'"
  proof (cases "overlay b ! ?n")
    case OverlayCellVisible
    then show ?thesis
      using n vis by (simp add: board_mark_def)
  qed (use n in \<open>simp_all add: board_mark_def b'_def v_def\<close>)
  have at: "overlay b' ! ?n = v"
    using len by (simp add: b'_def)
  have undo: "board_mark b' x y = Inr b"
  proof -
    have "b'\<lparr>overlay := (overlay b')[?n := overlay b ! ?n]\<rparr> = b"
      by (simp add: b'_def)
    moreover have "cell_index b' x y = ?n"
      by (simp add: b'_def)
    ultimately show ?thesis
      using n at vis by (cases "overlay b ! ?n") (simp_all add: board_mark_def v_def)
  qed
  have target: "overlay_at b' (x, y) =
      (case overlay_at b (x, y) of
         OverlayCellHidden \<Rightarrow> OverlayCellMarked
       | OverlayCellMarked \<Rightarrow> OverlayCellHidden
       | OverlayCellVisible \<Rightarrow> OverlayCellVisible)"
    using len unfolding b'_def by (simp add: overlay_at_update_same) (simp add: v_def overlay_at_def)
  have others: "\<forall>c. in_grid b c \<and> c \<noteq> (x, y) \<longrightarrow> overlay_at b' c = overlay_at b c"
    using assms(2) unfolding b'_def by (simp add: overlay_at_update_other)
  have frame: "\<forall>n. n \<noteq> ?n \<longrightarrow> overlay b' ! n = overlay b ! n"
    by (simp add: b'_def)
  show ?thesis
    using run undo target others frame by (simp add: b'_def)
qed

theorem board_mark_toggle_witness:
  "wf_board example_board \<and> (1::nat) < size_b example_board \<and>
   (\<exists>b'. board_mark example_board 1 1 = Inr b' \<and>
      overlay_at b' (1, 1) = OverlayCellMarked \<and>
      overlay_at b' (0, 2) = OverlayCellHidden \<and>
      cells b' = cells example_board \<and>
      board_mark b' 1 1 = Inr example_board)"
proof -
  have sz: "(1::nat) < size_b example_board"
    by (simp add: example_board_def)
  have hid: "overlay_at example_board c = OverlayCellHidden" if "in_grid example_board c" for c
    using in_grid_index [OF wf_example_board that]
    by (simp add: overlay_at_def example_board_def)
  have g: "in_grid example_board (1, 1)" "in_grid example_board (0, 2)"
    by (simp_all add: in_grid_def example_board_def)
  from board_mark_toggle [OF wf_example_board sz sz] obtain b' where
    b': "board_mark example_board 1 1 = Inr b'"
      "cells b' = cells example_board"
      "overlay_at b' (1, 1) = (case overlay_at example_board (1, 1) of
          OverlayCellHidden \<Rightarrow> OverlayCellMarked
        | OverlayCellMarked \<Rightarrow> OverlayCellHidden
        | OverlayCellVisible \<Rightarrow> OverlayCellVisible)"
      "\<forall>c. in_grid example_board c \<and> c \<noteq> (1, 1) \<longrightarrow> overlay_at b' c = overlay_at example_board c"
      "board_mark b' 1 1 = Inr example_board"
    by blast
  from b'(4) g(2) have "overlay_at b' (0, 2) = overlay_at example_board (0, 2)"
    by simp
  with b' hid g wf_example_board sz show ?thesis
    by simp
qed

section \<open>board_check_game_state\<close>

text \<open>
  Claim C7. On a well-formed board, \<^verbatim>\<open>board_check_game_state\<close> returns Lost exactly when
  some cell of the grid holds a mine and has the overlay Visible, whatever the other cells are.
\<close>

theorem check_game_state_lost:
  assumes "wf_board b"
  shows "fst (board_check_game_state b) = GameStateLost \<longleftrightarrow>
         (\<exists>c. in_grid b c \<and> cell_at b c = CELL_MINE \<and> overlay_at b c = OverlayCellVisible)"
  by (auto simp: board_check_game_state_def list_ex_grid visible_mine_def in_grid_def
      cell_at_def overlay_at_def split: prod.splits)

theorem check_game_state_lost_witness:
  "wf_board example_board \<and>
   fst (board_check_game_state
          (example_board\<lparr>overlay := (overlay example_board)[8 := OverlayCellVisible]\<rparr>)) =
     GameStateLost \<and>
   fst (board_check_game_state example_board) \<noteq> GameStateLost"
proof -
  let ?b = "example_board\<lparr>overlay := (overlay example_board)[8 := OverlayCellVisible]\<rparr>"
  have wf: "wf_board ?b"
    using wf_example_board by (simp add: wf_board_def)
  have "in_grid ?b (2, 2) \<and> cell_at ?b (2, 2) = CELL_MINE \<and>
        overlay_at ?b (2, 2) = OverlayCellVisible"
    by (simp add: in_grid_def cell_at_def overlay_at_def cell_index_def example_board_def
        CELL_MINE_def MAX_BOARD_AREA_def MAX_BOARD_SIZE_def)
  then have lost: "fst (board_check_game_state ?b) = GameStateLost"
    using check_game_state_lost [OF wf] by blast
  have "\<not> (\<exists>c. in_grid example_board c \<and> cell_at example_board c = CELL_MINE \<and>
          overlay_at example_board c = OverlayCellVisible)"
    using in_grid_index [OF wf_example_board]
    by (auto simp: overlay_at_def example_board_def)
  then have "fst (board_check_game_state example_board) \<noteq> GameStateLost"
    using check_game_state_lost [OF wf_example_board] by blast
  with lost wf_example_board show ?thesis
    by simp
qed

text \<open>
  What the two scans of \<^verbatim>\<open>board_check_game_state\<close> decide for Won: no mine is Visible and
  no cell without a mine is Hidden. A cell without a mine that is Marked does not stand in the
  way.
\<close>

lemma check_game_state_won_iff:
  "fst (board_check_game_state b) = GameStateWon \<longleftrightarrow>
     \<not> (\<exists>c. in_grid b c \<and> cell_at b c = CELL_MINE \<and> overlay_at b c = OverlayCellVisible) \<and>
     \<not> (\<exists>c. in_grid b c \<and> cell_at b c \<noteq> CELL_MINE \<and> overlay_at b c = OverlayCellHidden)"
  by (auto simp: board_check_game_state_def list_ex_grid visible_mine_def hidden_safe_def
      in_grid_def cell_at_def overlay_at_def split: prod.splits)

lemma marked_safe_cell_run:
  "case and_then (and_then (and_then (board_init rand_zero static_board 2 1)
            (\<lambda>b. board_mark b 0 0)) (\<lambda>b. board_reveal 5 b 1 0)) (\<lambda>b. board_reveal 5 b 0 1) of
     Inl e \<Rightarrow> False
   | Inr b \<Rightarrow> fst (board_check_game_state b) = GameStateWon \<and> in_grid b (0, 0) \<and>
       cell_at b (0, 0) \<noteq> CELL_MINE \<and> overlay_at b (0, 0) = OverlayCellMarked"
  by code_simp

text \<open>
  Claim C1, at a board the program reaches. \<^verbatim>\<open>board_init\<close> with size 2, one mine and every
  \<^verbatim>\<open>rand()\<close> equal to 0 puts the mine at \<open>(1, 1)\<close>. The player marks \<open>(0, 0)\<close> and reveals
  \<open>(1, 0)\<close> and \<open>(0, 1)\<close>. Then \<^verbatim>\<open>board_check_game_state\<close> returns Won, although the cell
  \<open>(0, 0)\<close> holds no mine and is Marked, not Visible.
\<close>

theorem check_game_state_won_with_marked_safe_cell:
  "\<exists>b. and_then (and_then (and_then (board_init rand_zero static_board 2 1)
            (\<lambda>b. board_mark b 0 0)) (\<lambda>b. board_reveal 5 b 1 0)) (\<lambda>b. board_reveal 5 b 0 1) = Inr b \<and>
     fst (board_check_game_state b) = GameStateWon \<and> in_grid b (0, 0) \<and>
     cell_at b (0, 0) \<noteq> CELL_MINE \<and> overlay_at b (0, 0) = OverlayCellMarked"
  using marked_safe_cell_run by (auto split: sum.splits)

text \<open>
  Claim C10. \<^verbatim>\<open>board_check_game_state\<close> leaves the board as it found it, and any number of
  calls in succession return the result of the first.
\<close>

theorem check_game_state_pure:
  "snd (board_check_game_state b) = b \<and>
   check_repeatedly n b = (replicate n (fst (board_check_game_state b)), b)"
proof -
  have s: "snd (board_check_game_state b) = b" for b
    by (simp add: board_check_game_state_def)
  have "check_repeatedly n b = (replicate n (fst (board_check_game_state b)), b)"
  proof (induction n)
    case 0
    show ?case by simp
  next
    case (Suc n)
    obtain r b' where rb: "board_check_game_state b = (r, b')"
      by (cases "board_check_game_state b")
    with s [of b] have "b' = b" by simp
    with rb Suc show ?case by simp
  qed
  with s show ?thesis by simp
qed

section \<open>board_reveal\<close>

lemma reveal_ext_refl: "reveal_ext b b"
  by (simp add: reveal_ext_def)

lemma reveal_ext_trans: "reveal_ext a b \<Longrightarrow> reveal_ext b c \<Longrightarrow> reveal_ext a c"
  unfolding reveal_ext_def by (metis OverlayCell.distinct(1))

lemma reveal_ext_wf: "reveal_ext b b' \<Longrightarrow> wf_board b \<Longrightarrow> wf_board b'"
  by (simp add: reveal_ext_def wf_board_def)

lemma reveal_ext_in_grid: "reveal_ext b b' \<Longrightarrow> in_grid b' c = in_grid b c"
  by (simp add: reveal_ext_def in_grid_def)

lemma reveal_ext_cell_at: "reveal_ext b b' \<Longrightarrow> cell_at b' c = cell_at b c"
  by (simp add: reveal_ext_def cell_at_def cell_index_def)

lemma reveal_ext_overlay_at:
  "reveal_ext b b' \<Longrightarrow>
   overlay_at b' c = overlay_at b c \<or>
   (overlay_at b c = OverlayCellHidden \<and> overlay_at b' c = OverlayCellVisible)"
  by (simp add: reveal_ext_def overlay_at_def cell_index_def)

lemma reveal_ext_set_visible:
  assumes "overlay b ! n = OverlayCellHidden"
  shows "reveal_ext b (b\<lparr>overlay := (overlay b)[n := OverlayCellVisible]\<rparr>)"
proof -
  have "(overlay b)[n := OverlayCellVisible] ! k = overlay b ! k \<or>
        (overlay b ! k = OverlayCellHidden \<and>
         (overlay b)[n := OverlayCellVisible] ! k = OverlayCellVisible)" for k
  proof (cases "n < length (overlay b)")
    case True
    with assms show ?thesis
      by (cases "k = n") simp_all
  next
    case False
    then have "(overlay b)[n := OverlayCellVisible] = overlay b"
      by (intro list_update_beyond) simp
    then show ?thesis by simp
  qed
  then show ?thesis
    by (simp add: reveal_ext_def)
qed

lemma reveals_ext:
  shows "reveals b x y b' \<Longrightarrow> reveal_ext b b'"
    and "reveals_block b cs b' \<Longrightarrow> reveal_ext b b'"
proof (induction rule: reveals_reveals_block.inducts)
  case (reveals_not_hidden b x y)
  show ?case by (rule reveal_ext_refl)
next
  case (reveals_single b x y)
  then show ?case
    by (simp add: reveal_ext_set_visible overlay_at_def)
next
  case (reveals_flood b x y b')
  have "reveal_ext b (b\<lparr>overlay := (overlay b)[cell_index b x y := OverlayCellVisible]\<rparr>)"
    using reveals_flood.hyps(3) by (simp add: reveal_ext_set_visible overlay_at_def)
  with reveals_flood.IH show ?case
    by (rule reveal_ext_trans [rotated])
next
  case (reveals_block_nil b)
  show ?case by (rule reveal_ext_refl)
next
  case (reveals_block_cons b i j b1 cs b')
  then show ?case
    by (blast intro: reveal_ext_trans)
qed

lemma lo_simp [simp]: "lo v = v - 1"
  by (simp add: lo_def)

lemma set_block3:
  "set (block3 sz x y) = {(i, j). x - 1 \<le> i \<and> i < min (x + 2) sz \<and> y - 1 \<le> j \<and> j < min (y + 2) sz}"
  by (auto simp: block3_def hi_def)

lemma block3_in_grid:
  "c \<in> set (block3 (size_b b) x y) \<Longrightarrow> in_grid b c"
  by (auto simp: set_block3 in_grid_def)

lemma board_reveal_reveals:
  shows "wf_board b \<Longrightarrow> in_grid b (x, y) \<Longrightarrow> board_reveal fuel b x y = Inr b' \<Longrightarrow> reveals b x y b'"
    and "wf_board b \<Longrightarrow> \<forall>c\<in>set cs. in_grid b c \<Longrightarrow> reveal_block fuel cs b = Inr b' \<Longrightarrow>
         reveals_block b cs b'"
proof (induction fuel b x y and fuel cs b arbitrary: b' and b' rule: board_reveal_reveal_block.induct)
  case (1 b x y)
  then show ?case by simp
next
  case (2 fuel b x y)
  let ?n = "cell_index b x y"
  let ?b1 = "b\<lparr>overlay := (overlay b)[?n := OverlayCellVisible]\<rparr>"
  have n: "?n < MAX_BOARD_AREA"
    using "2.prems"(1,2) in_grid_index by fastforce
  show ?case
  proof (cases "overlay b ! ?n = OverlayCellHidden")
    case False
    with "2.prems" n show ?thesis
      by (auto simp: overlay_at_def intro: reveals_not_hidden)
  next
    case hidden: True
    show ?thesis
    proof (cases "cells b ! ?n = CELL_EMPTY")
      case False
      with hidden "2.prems" n show ?thesis
        by (auto simp: overlay_at_def cell_at_def Let_def intro: reveals_single)
    next
      case True
      with hidden "2.prems"(3) n have run: "reveal_block fuel (block3 (size_b b) x y) ?b1 = Inr b'"
        by (simp add: Let_def)
      have wf1: "wf_board ?b1"
        using "2.prems"(1) by (simp add: wf_board_def)
      have "reveals_block ?b1 (block3 (size_b ?b1) x y) b'"
        using "2.IH" [OF refl _ _ refl _ wf1] n hidden True run block3_in_grid [of _ ?b1 x y]
        by simp
      with hidden True "2.prems" show ?thesis
        by (auto simp: overlay_at_def cell_at_def intro: reveals_flood)
    qed
  qed
next
  case (3 fuel b)
  then show ?case by (auto intro: reveals_block_nil)
next
  case (4 fuel i j cs b)
  from "4.prems"(3) obtain b1 where
    b1: "board_reveal fuel b i j = Inr b1" and rest: "reveal_block fuel cs b1 = Inr b'"
    by (auto split: sum.splits)
  have r: "reveals b i j b1"
    using "4.IH"(1) "4.prems"(1,2) b1 by simp
  then have ext: "reveal_ext b b1"
    by (rule reveals_ext)
  have "reveals_block b1 cs b'"
    using "4.IH"(2) [OF b1 _ _ rest] ext "4.prems"(1,2)
    by (simp add: reveal_ext_wf reveal_ext_in_grid)
  with r show ?case
    by (rule reveals_block_cons)
qed

lemma reveal_ext_not_hidden:
  "reveal_ext b b' \<Longrightarrow> overlay_at b c \<noteq> OverlayCellHidden \<Longrightarrow> overlay_at b' c = overlay_at b c"
  using reveal_ext_overlay_at [of b b' c] by auto

lemma reveal_ext_hidden_after:
  "reveal_ext b b' \<Longrightarrow> overlay_at b' c = OverlayCellHidden \<Longrightarrow> overlay_at b c = OverlayCellHidden"
  using reveal_ext_overlay_at [of b b' c] by auto

lemma reveals_target:
  shows "reveals b x y b' \<Longrightarrow> overlay_at b' (x, y) \<noteq> OverlayCellHidden"
    and "reveals_block b cs b' \<Longrightarrow> \<forall>c\<in>set cs. overlay_at b' c \<noteq> OverlayCellHidden"
proof (induction rule: reveals_reveals_block.inducts)
  case (reveals_not_hidden b x y)
  then show ?case by simp
next
  case (reveals_single b x y)
  then show ?case
    using in_grid_index [of b "(x, y)"]
    by (simp add: overlay_at_update_same wf_board_def)
next
  case (reveals_flood b x y b')
  let ?b1 = "b\<lparr>overlay := (overlay b)[cell_index b x y := OverlayCellVisible]\<rparr>"
  have "overlay_at ?b1 (x, y) = OverlayCellVisible"
    using reveals_flood.hyps(1,2) in_grid_index [of b "(x, y)"]
    by (simp add: overlay_at_update_same wf_board_def)
  moreover have "reveal_ext ?b1 b'"
    using reveals_flood.hyps(5) by (rule reveals_ext)
  ultimately show ?case
    using reveal_ext_not_hidden [of ?b1 b' "(x, y)"] by simp
next
  case (reveals_block_nil b)
  show ?case by simp
next
  case (reveals_block_cons b i j b1 cs b')
  have "reveal_ext b1 b'"
    using reveals_block_cons.hyps(2) by (rule reveals_ext)
  then have "overlay_at b' (i, j) \<noteq> OverlayCellHidden"
    using reveals_block_cons.IH(1) reveal_ext_not_hidden [of b1 b' "(i, j)"] by simp
  with reveals_block_cons.IH(2) show ?case by simp
qed

lemma reveals_deterministic:
  shows "reveals b x y b1 \<Longrightarrow> reveals b x y b2 \<Longrightarrow> b1 = b2"
    and "reveals_block b cs b1 \<Longrightarrow> reveals_block b cs b2 \<Longrightarrow> b1 = b2"
proof (induction arbitrary: b2 and b2 rule: reveals_reveals_block.inducts)
  case (reveals_not_hidden b x y)
  from reveals_not_hidden.prems reveals_not_hidden.hyps show ?case
    by cases simp_all
next
  case (reveals_single b x y)
  from reveals_single.prems reveals_single.hyps show ?case
    by cases simp_all
next
  case (reveals_flood b x y b')
  from reveals_flood.prems reveals_flood.hyps(3,4) reveals_flood.IH show ?case
    by cases simp_all
next
  case (reveals_block_nil b)
  from reveals_block_nil.prems show ?case
    by cases simp_all
next
  case (reveals_block_cons b i j b1 cs b')
  from reveals_block_cons.prems reveals_block_cons.IH show ?case
    by cases auto
qed

lemma length_grid: "length (grid sz) = sz * sz"
  by (simp add: grid_def length_concat comp_def sum_list_triv)

lemma grid_product: "grid sz = map prod.swap (List.product [0..<sz] [0..<sz])"
  by (simp add: grid_def product_concat_map map_concat comp_def)

lemma distinct_grid: "distinct (grid sz)"
  by (simp add: grid_product distinct_map distinct_product)

lemma block3_product:
  "block3 sz x y = map prod.swap (List.product [lo y..<hi sz y] [lo x..<hi sz x])"
  by (simp add: block3_def product_concat_map map_concat comp_def)

lemma distinct_block3: "distinct (block3 sz x y)"
  by (simp add: block3_product distinct_map distinct_product)

lemma hidden_count_le: "hidden_count b \<le> size_b b * size_b b"
  unfolding hidden_count_def
  using length_filter_le [of _ "grid (size_b b)"] by (simp add: length_grid)

lemma length_filter_mono:
  "(\<And>x. x \<in> set xs \<Longrightarrow> P x \<Longrightarrow> Q x) \<Longrightarrow> length (filter P xs) \<le> length (filter Q xs)"
  by (induction xs) auto

lemma reveal_ext_hidden_count:
  "reveal_ext b b' \<Longrightarrow> hidden_count b' \<le> hidden_count b"
  unfolding hidden_count_def
  using reveal_ext_hidden_after [of b b']
  by (auto simp: reveal_ext_def intro: length_filter_mono)

lemma hidden_count_set_visible:
  assumes "wf_board b" "in_grid b (x, y)" "overlay_at b (x, y) = OverlayCellHidden"
  shows "hidden_count (b\<lparr>overlay := (overlay b)[cell_index b x y := OverlayCellVisible]\<rparr>)
           < hidden_count b"
proof -
  let ?b1 = "b\<lparr>overlay := (overlay b)[cell_index b x y := OverlayCellVisible]\<rparr>"
  let ?H = "filter (\<lambda>c. overlay_at b c = OverlayCellHidden) (grid (size_b b))"
  have len: "cell_index b x y < length (overlay b)"
    using assms(1,2) in_grid_index [of b "(x, y)"] by (simp add: wf_board_def)
  have eq: "(overlay_at ?b1 c = OverlayCellHidden) =
            (overlay_at b c = OverlayCellHidden \<and> c \<noteq> (x, y))" if "c \<in> set (grid (size_b b))" for c
  proof (cases "c = (x, y)")
    case True
    with len show ?thesis by (simp add: overlay_at_update_same)
  next
    case False
    with that assms(2) show ?thesis
      by (simp add: overlay_at_update_other set_grid in_grid_def)
  qed
  have "filter (\<lambda>c. overlay_at ?b1 c = OverlayCellHidden) (grid (size_b b)) =
        filter (\<lambda>c. c \<noteq> (x, y)) ?H"
    using eq by (auto intro: filter_cong)
  moreover have "(x, y) \<in> set ?H"
    using assms(2,3) by (simp add: set_grid in_grid_def)
  then have "length (filter (\<lambda>c. c \<noteq> (x, y)) ?H) < length ?H"
    by (rule length_filter_less) simp
  ultimately show ?thesis
    by (simp add: hidden_count_def)
qed

lemma board_reveal_terminates:
  shows "wf_board b \<Longrightarrow> in_grid b (x, y) \<Longrightarrow> hidden_count b < fuel \<Longrightarrow>
         \<exists>b'. board_reveal fuel b x y = Inr b'"
    and "wf_board b \<Longrightarrow> \<forall>c\<in>set cs. in_grid b c \<Longrightarrow> hidden_count b < fuel \<Longrightarrow>
         \<exists>b'. reveal_block fuel cs b = Inr b'"
proof (induction fuel b x y and fuel cs b rule: board_reveal_reveal_block.induct)
  case (1 b x y)
  then show ?case by simp
next
  case (2 fuel b x y)
  let ?n = "cell_index b x y"
  let ?b1 = "b\<lparr>overlay := (overlay b)[?n := OverlayCellVisible]\<rparr>"
  have n: "?n < MAX_BOARD_AREA"
    using "2.prems"(1,2) in_grid_index by fastforce
  show ?case
  proof (cases "overlay b ! ?n = OverlayCellHidden \<and> cells b ! ?n = CELL_EMPTY")
    case False
    with n show ?thesis
      by (auto simp: Let_def)
  next
    case True
    have wf1: "wf_board ?b1"
      using "2.prems"(1) by (simp add: wf_board_def)
    have "hidden_count ?b1 < hidden_count b"
      using "2.prems"(1,2) True by (intro hidden_count_set_visible) (simp_all add: overlay_at_def)
    with "2.prems"(3) have less: "hidden_count ?b1 < fuel"
      by simp
    have "\<exists>b'. reveal_block fuel (block3 (size_b ?b1) x y) ?b1 = Inr b'"
      using "2.IH" [OF refl _ _ refl _ wf1 _ less] n True block3_in_grid [of _ ?b1 x y]
      by simp
    with n True show ?thesis
      by (simp add: Let_def)
  qed
next
  case (3 fuel b)
  show ?case by simp
next
  case (4 fuel i j cs b)
  from "4.IH"(1) "4.prems" obtain b1 where b1: "board_reveal fuel b i j = Inr b1"
    by auto
  then have "reveals b i j b1"
    using "4.prems"(1,2) by (intro board_reveal_reveals(1)) simp_all
  then have ext: "reveal_ext b b1"
    by (rule reveals_ext)
  have "hidden_count b1 < fuel"
    using reveal_ext_hidden_count [OF ext] "4.prems"(3) by simp
  then have "\<exists>b'. reveal_block fuel cs b1 = Inr b'"
    using "4.IH"(2) [OF b1] ext "4.prems"(1,2)
    by (simp add: reveal_ext_wf reveal_ext_in_grid)
  with b1 show ?case by simp
qed

lemma board_reveal_not_hidden:
  assumes "wf_board b" "in_grid b (x, y)" "overlay_at b (x, y) \<noteq> OverlayCellHidden"
  shows "board_reveal (Suc fuel) b x y = Inr b"
  using assms in_grid_index [of b "(x, y)"] by (simp add: overlay_at_def)

lemma board_reveal_total:
  assumes "wf_board b" "in_grid b (x, y)" "hidden_count b < fuel"
  shows "\<exists>b'. board_reveal fuel b x y = Inr b' \<and> reveals b x y b'"
  using board_reveal_terminates(1) [OF assms] board_reveal_reveals(1) [OF assms(1,2)] by blast

lemma board_reveal_twice:
  assumes "wf_board b" "in_grid b (x, y)"
  shows "and_then (board_reveal fuel b x y) (\<lambda>b1. board_reveal fuel b1 x y) = board_reveal fuel b x y"
proof (cases "board_reveal fuel b x y")
  case (Inl e)
  then show ?thesis by (simp add: and_then_def)
next
  case (Inr b')
  then obtain f where f: "fuel = Suc f"
    by (cases fuel) simp_all
  have r: "reveals b x y b'"
    using assms Inr by (rule board_reveal_reveals(1))
  then have ext: "reveal_ext b b'"
    by (rule reveals_ext)
  have "board_reveal (Suc f) b' x y = Inr b'"
    using reveals_target(1) [OF r] ext assms
    by (intro board_reveal_not_hidden) (simp_all add: reveal_ext_wf reveal_ext_in_grid)
  with Inr f show ?thesis
    by (simp add: and_then_def)
qed

text \<open>
  Claim C5. On a well-formed board and for a cell of the grid: when the overlay of the cell is
  not Hidden (Visible or Marked), \<^verbatim>\<open>board_reveal\<close> returns the board unchanged; two calls in
  succession on the same cell give what one call gives; every overlay entry that is Marked is
  still Marked afterwards; and with a depth above the area the call returns a board.
\<close>

theorem board_reveal_idempotent:
  assumes "wf_board b" "x < size_b b" "y < size_b b"
  shows "(overlay_at b (x, y) \<noteq> OverlayCellHidden \<longrightarrow> board_reveal (Suc fuel) b x y = Inr b) \<and>
         and_then (board_reveal fuel b x y) (\<lambda>b1. board_reveal fuel b1 x y) =
           board_reveal fuel b x y \<and>
         (\<forall>b'. board_reveal fuel b x y = Inr b' \<longrightarrow>
            (\<forall>n. overlay b ! n = OverlayCellMarked \<longrightarrow> overlay b' ! n = OverlayCellMarked)) \<and>
         (size_b b * size_b b < fuel \<longrightarrow> (\<exists>b'. board_reveal fuel b x y = Inr b'))"
proof -
  have g: "in_grid b (x, y)"
    using assms(2,3) by (simp add: in_grid_def)
  have marked: "overlay b' ! n = OverlayCellMarked"
    if "board_reveal fuel b x y = Inr b'" "overlay b ! n = OverlayCellMarked" for b' n
  proof -
    have "reveal_ext b b'"
      using board_reveal_reveals(1) [OF assms(1) g that(1)] by (rule reveals_ext)
    then have "overlay b' ! n = overlay b ! n \<or> overlay b ! n = OverlayCellHidden"
      unfolding reveal_ext_def by blast
    with that(2) show ?thesis
      by simp
  qed
  have "\<exists>b'. board_reveal fuel b x y = Inr b'" if "size_b b * size_b b < fuel"
    using that hidden_count_le [of b] by (intro board_reveal_terminates(1) assms(1) g) simp
  with marked board_reveal_not_hidden [OF assms(1) g] board_reveal_twice [OF assms(1) g]
  show ?thesis by blast
qed

theorem board_reveal_idempotent_witness:
  "wf_board example_board \<and> (0::nat) < size_b example_board \<and>
   size_b example_board * size_b example_board < 10 \<and>
   and_then (board_reveal 10 example_board 0 0) (\<lambda>b1. board_reveal 10 b1 0 0) =
     board_reveal 10 example_board 0 0 \<and>
   (\<exists>b'. board_reveal 10 example_board 0 0 = Inr b')"
proof -
  have sz: "(0::nat) < size_b example_board" "size_b example_board * size_b example_board < 10"
    by (simp_all add: example_board_def)
  from board_reveal_idempotent [OF wf_example_board sz(1) sz(1), of 10] sz wf_example_board
  show ?thesis by blast
qed

section \<open>board_init\<close>

lemma of_nat_count_not_mine: "k \<le> 9 \<Longrightarrow> (of_nat k :: uint8_t) \<noteq> CELL_MINE"
proof
  assume k: "k \<le> 9" and eq: "(of_nat k :: uint8_t) = CELL_MINE"
  from eq have "unat (of_nat k :: uint8_t) = unat (255 :: uint8_t)"
    by (simp add: CELL_MINE_def)
  with k show False
    by (simp add: unat_of_nat)
qed

lemma unat_of_nat_count: "k \<le> 9 \<Longrightarrow> unat (of_nat k :: uint8_t) = k"
  by (simp add: unat_of_nat)

subsection \<open>The Fisher-Yates loop\<close>

lemma shuffle_step_inv:
  assumes "shuffle_inv k s" "k < MAX_BOARD_AREA"
  shows "shuffle_inv (Suc k) (shuffle_step rand k s)"
proof -
  let ?j = "rand k mod (k + 1)"
  from assms(1) have len: "length s = MAX_BOARD_AREA"
    and perm: "mset (take k s) = mset [0..<k]"
    and zero: "\<And>i. k \<le> i \<Longrightarrow> i < MAX_BOARD_AREA \<Longrightarrow> s ! i = 0"
    by (simp_all add: shuffle_inv_def)
  have j: "?j \<le> k"
    by (simp add: less_Suc_eq_le [symmetric])
  show ?thesis
  proof (cases "?j = k")
    case True
    then have step: "shuffle_step rand k s = s[k := k]"
      by (simp add: shuffle_step_def)
    have "take (Suc k) (s[k := k]) = take k s @ [k]"
      using assms(2) len by (simp add: take_Suc_conv_app_nth)
    with perm zero len show ?thesis
      unfolding step shuffle_inv_def by simp
  next
    case False
    with j have jk: "?j < k" by linarith
    let ?s' = "s[k := s ! ?j, ?j := k]"
    from False have step: "shuffle_step rand k s = ?s'"
      by (simp add: shuffle_step_def Let_def)
    have tk: "take k ?s' = (take k s)[?j := k]"
      by (simp add: take_update_swap list_update_beyond)
    have "?s' ! k = s ! ?j"
      using jk assms(2) len by simp
    then have "take (Suc k) ?s' = (take k s)[?j := k] @ [s ! ?j]"
      using assms(2) len tk by (simp add: take_Suc_conv_app_nth)
    moreover have nth: "take k s ! ?j = s ! ?j"
      using jk by simp
    moreover have "s ! ?j \<in># mset (take k s)"
    proof -
      have "?j < length (take k s)"
        using jk assms(2) len by simp
      then have "take k s ! ?j \<in> set (take k s)"
        by (rule nth_mem)
      with nth show ?thesis
        by simp
    qed
    ultimately have "mset (take (Suc k) ?s') = add_mset k (mset (take k s))"
      using jk assms(2) len by (simp add: mset_update)
    moreover have "?s' ! i = 0" if "Suc k \<le> i" "i < MAX_BOARD_AREA" for i
      using that jk zero [of i] by simp
    ultimately show ?thesis
      unfolding step shuffle_inv_def using perm len by simp
  qed
qed

lemma shuffle_fold_inv:
  "k \<le> MAX_BOARD_AREA \<Longrightarrow>
   shuffle_inv k (fold (shuffle_step rand) [0..<k] (replicate MAX_BOARD_AREA 0))"
proof (induction k)
  case 0
  show ?case by (simp add: shuffle_inv_def)
next
  case (Suc k)
  then show ?case
    by (simp add: shuffle_step_inv)
qed

lemma shuffled_indices_inv:
  "area \<le> MAX_BOARD_AREA \<Longrightarrow> shuffle_inv area (shuffled_indices rand area)"
  unfolding shuffled_indices_def using shuffle_fold_inv [of area rand] by simp


lemma shuffle_inv_set:
  assumes "shuffle_inv area s" "area \<le> MAX_BOARD_AREA"
  shows "set (take area s) = {..<area}" and "distinct (take area s)"
proof -
  from assms(1) have perm: "mset (take area s) = mset [0..<area]"
    by (simp add: shuffle_inv_def)
  from mset_eq_setD [OF perm] show "set (take area s) = {..<area}"
    by (simp add: lessThan_atLeast0)
  from perm have "distinct (take area s) = distinct [0..<area]"
    by (rule mset_eq_imp_distinct_iff)
  then show "distinct (take area s)"
    by simp
qed

text \<open>The cells that the mine loop writes, for \<open>m\<close> mines.\<close>

lemma shuffle_mine_set:
  assumes "shuffle_inv area s" "0 < area" "area \<le> MAX_BOARD_AREA" "m \<le> MAX_BOARD_AREA"
  shows "(\<lambda>i. s ! i) ` {..<m} \<subseteq> {..<area}" and "card ((\<lambda>i. s ! i) ` {..<m}) = min m area"
proof -
  from assms(1) have len: "length s = MAX_BOARD_AREA"
    and zero: "\<And>i. area \<le> i \<Longrightarrow> i < MAX_BOARD_AREA \<Longrightarrow> s ! i = 0"
    by (simp_all add: shuffle_inv_def)
  have img: "(\<lambda>i. s ! i) ` {..<k} = set (take k s)" if "k \<le> MAX_BOARD_AREA" for k
    using that len nth_image [of k s] by (simp add: lessThan_atLeast0)
  have all: "set (take area s) = {..<area}" and dist: "distinct (take area s)"
    using shuffle_inv_set [OF assms(1,3)] by simp_all
  show "(\<lambda>i. s ! i) ` {..<m} \<subseteq> {..<area}"
  proof
    fix n assume "n \<in> (\<lambda>i. s ! i) ` {..<m}"
    then obtain i where i: "i < m" "n = s ! i" by auto
    show "n \<in> {..<area}"
    proof (cases "i < area")
      case True
      then have "s ! i \<in> (\<lambda>i. s ! i) ` {..<area}" by simp
      with img [OF assms(3)] all i show ?thesis by simp
    next
      case False
      with i assms(2,4) zero [of i] show ?thesis by simp
    qed
  qed
  show "card ((\<lambda>i. s ! i) ` {..<m}) = min m area"
  proof (cases "m \<le> area")
    case True
    have "take m s = take m (take area s)"
      using True by (simp add: min.absorb1)
    then have "distinct (take m s)"
      using dist by (metis distinct_take)
    then have "card (set (take m s)) = length (take m s)"
      by (rule distinct_card)
    with True assms(4) len img [of m] show ?thesis
      by (simp add: min.absorb1)
  next
    case False
    have "(\<lambda>i. s ! i) ` {..<area} \<subseteq> (\<lambda>i. s ! i) ` {..<m}"
      using False by (intro image_mono) simp
    with img [OF assms(3)] all \<open>(\<lambda>i. s ! i) ` {..<m} \<subseteq> {..<area}\<close>
    have "(\<lambda>i. s ! i) ` {..<m} = {..<area}" by simp
    with False show ?thesis by (simp add: min.absorb2)
  qed
qed

lemma place_mines_fold:
  assumes "\<forall>i\<in>set is. i < MAX_BOARD_AREA \<and> s ! i < MAX_BOARD_AREA"
  shows "\<exists>c'. place_mines s is c = Inr c' \<and> length c' = length c \<and>
           (\<forall>n. c' ! n = (if n \<in> (\<lambda>i. s ! i) ` set is \<and> n < length c then CELL_MINE else c ! n))"
  using assms
proof (induction "is" arbitrary: c)
  case Nil
  show ?case by simp
next
  case (Cons i "is")
  from Cons.prems have ok: "i < MAX_BOARD_AREA" "s ! i < MAX_BOARD_AREA"
    and rest: "\<forall>i\<in>set is. i < MAX_BOARD_AREA \<and> s ! i < MAX_BOARD_AREA"
    by simp_all
  from Cons.IH [OF rest, of "c[s ! i := CELL_MINE]"] obtain c' where
    c': "place_mines s is (c[s ! i := CELL_MINE]) = Inr c'" "length c' = length c"
      "\<forall>n. c' ! n = (if n \<in> (\<lambda>i. s ! i) ` set is \<and> n < length c then CELL_MINE
                      else c[s ! i := CELL_MINE] ! n)"
    by auto
  have "c' ! n = (if n \<in> (\<lambda>i. s ! i) ` set (i # is) \<and> n < length c then CELL_MINE else c ! n)" for n
    using c'(3) by (cases "n = s ! i") (auto simp: nth_list_update list_update_beyond)
  with c'(1,2) ok show ?case
    by simp
qed

lemma place_mines_out_of_bounds:
  "\<exists>i\<in>set is. MAX_BOARD_AREA \<le> i \<Longrightarrow> place_mines s is c = Inl OutOfBounds"
  by (induction "is" arbitrary: c) auto


subsection \<open>The numbering loop\<close>

lemma nth_list_update_if:
  "xs[i := v] ! n = (if n = i \<and> i < length xs then v else xs ! n)"
  by (cases "i < length xs") (simp_all add: nth_list_update list_update_beyond)

lemma length_block3: "length (block3 sz x y) \<le> 9"
proof -
  have "hi sz y - lo y \<le> 3" "hi sz x - lo x \<le> 3"
    by (simp_all add: hi_def)
  then have "(hi sz y - lo y) * (hi sz x - lo x) \<le> 3 * 3"
    by (rule mult_le_mono)
  then show ?thesis
    by (simp add: block3_product)
qed

lemma self_in_block3: "x < sz \<Longrightarrow> y < sz \<Longrightarrow> (x, y) \<in> set (block3 sz x y)"
  by (auto simp: set_block3)

lemma count_mines_le:
  assumes "in_grid b (x, y)"
  shows "count_mines b x y \<le> 8"
proof -
  let ?B = "block3 (size_b b) x y"
  have "count_mines b x y \<le> length (filter (\<lambda>q. q \<noteq> (x, y)) ?B)"
    unfolding count_mines_def by (rule length_filter_mono) auto
  also have "\<dots> < length ?B"
    using assms by (intro length_filter_less [of "(x, y)"]) (simp_all add: self_in_block3 in_grid_def)
  finally show ?thesis
    using length_block3 [of "size_b b" x y] by simp
qed

lemma count_mines_cong:
  assumes "size_b b' = size_b b" "\<And>n. (cells b' ! n = CELL_MINE) = (cells b ! n = CELL_MINE)"
  shows "count_mines b' x y = count_mines b x y"
  using assms by (simp add: count_mines_def cell_index_def)

lemma count_mines_neighbour_mines:
  assumes "in_grid b (x, y)"
  shows "count_mines b x y = neighbour_mines b (x, y)"
proof -
  have "{q. case q of (i, j) \<Rightarrow> \<not> (i = x \<and> j = y) \<and> cells b ! cell_index b i j = CELL_MINE} \<inter>
          set (block3 (size_b b) x y) =
        {q. adj8 b (x, y) q \<and> cell_at b q = CELL_MINE} \<inter> set (grid (size_b b))"
    using assms by (auto simp: set_block3 set_grid adj8_def in_grid_def cell_at_def)
  then show ?thesis
    by (simp add: count_mines_def neighbour_mines_def distinct_length_filter
        distinct_block3 distinct_grid)
qed

lemma neighbour_mines_le: "in_grid b p \<Longrightarrow> neighbour_mines b p \<le> 8"
  using count_mines_le [of b "fst p" "snd p"] count_mines_neighbour_mines [of b "fst p" "snd p"]
  by simp

lemma same_mines_cell_at:
  "same_mines b b' \<Longrightarrow> (cell_at b' c = CELL_MINE) = (cell_at b c = CELL_MINE)"
  by (simp add: same_mines_def cell_at_def cell_index_def)

lemma same_mines_neighbour_mines:
  assumes "same_mines b b'"
  shows "neighbour_mines b' p = neighbour_mines b p"
proof -
  have "(cell_at b' q = CELL_MINE) = (cell_at b q = CELL_MINE)" for q
    using assms by (rule same_mines_cell_at)
  moreover have "size_b b' = size_b b"
    using assms by (simp add: same_mines_def)
  ultimately show ?thesis
    by (simp add: neighbour_mines_def adj8_def in_grid_def)
qed

lemma number_cell_same_mines:
  assumes "in_grid b c"
  shows "same_mines b (number_cell c b)"
proof -
  obtain x y where c: "c = (x, y)" by (cases c)
  have "(of_nat (count_mines b x y) :: uint8_t) \<noteq> CELL_MINE"
    using count_mines_le [of b x y] assms c by (intro of_nat_count_not_mine) simp
  then show ?thesis
    by (auto simp: number_cell_def c same_mines_def Let_def nth_list_update_if)
qed

lemma number_cell_at:
  assumes "in_grid b c" "in_grid b p" "cell_index b (fst c) (snd c) < length (cells b)"
  shows "cell_at (number_cell c b) p =
         (if p = c \<and> cell_at b c \<noteq> CELL_MINE then of_nat (neighbour_mines b c) else cell_at b p)"
proof -
  obtain x y where c: "c = (x, y)" by (cases c)
  have idx: "cell_index b (fst p) (snd p) = cell_index b x y \<longleftrightarrow> p = c"
    using assms(1,2) cell_index_inj [of "fst p" b x "snd p" y]
    by (auto simp: c in_grid_def)
  show ?thesis
    using assms(1,3) idx count_mines_neighbour_mines [of b x y]
    by (auto simp: number_cell_def c cell_at_def cell_index_def Let_def)
qed

lemma number_cell_other:
  "n \<noteq> cell_index b (fst c) (snd c) \<Longrightarrow> cells (number_cell c b) ! n = cells b ! n"
  by (cases c) (simp add: number_cell_def Let_def)

lemma number_cells_fold:
  assumes "\<forall>c\<in>set cs. in_grid b c \<and> cell_index b (fst c) (snd c) < length (cells b)" "distinct cs"
  shows "same_mines b (fold number_cell cs b) \<and>
         (\<forall>p. in_grid b p \<longrightarrow>
            cell_at (fold number_cell cs b) p =
              (if p \<in> set cs \<and> cell_at b p \<noteq> CELL_MINE then of_nat (neighbour_mines b p)
               else cell_at b p)) \<and>
         (\<forall>n. n \<notin> (\<lambda>c. cell_index b (fst c) (snd c)) ` set cs \<longrightarrow>
            cells (fold number_cell cs b) ! n = cells b ! n)"
  using assms
proof (induction cs arbitrary: b)
  case Nil
  show ?case by (simp add: same_mines_def)
next
  case (Cons c cs)
  let ?b1 = "number_cell c b"
  let ?b' = "fold number_cell cs ?b1"
  from Cons.prems have c: "in_grid b c" "cell_index b (fst c) (snd c) < length (cells b)"
    and notin: "c \<notin> set cs" and dist: "distinct cs"
    by simp_all
  have sm1: "same_mines b ?b1"
    using c(1) by (rule number_cell_same_mines)
  then have same1: "size_b ?b1 = size_b b" "length (cells ?b1) = length (cells b)"
    by (simp_all add: same_mines_def)
  have grid1: "in_grid ?b1 p = in_grid b p" for p
    by (simp add: in_grid_def same1)
  have idx1: "cell_index ?b1 x y = cell_index b x y" for x y
    by (simp add: cell_index_def same1)
  have pre: "\<forall>c\<in>set cs. in_grid ?b1 c \<and> cell_index ?b1 (fst c) (snd c) < length (cells ?b1)"
    using Cons.prems(1) by (simp add: grid1 idx1 same1)
  from Cons.IH [OF pre dist] have
    sm2: "same_mines ?b1 ?b'" and
    at2: "\<And>p. in_grid ?b1 p \<Longrightarrow> cell_at ?b' p =
            (if p \<in> set cs \<and> cell_at ?b1 p \<noteq> CELL_MINE then of_nat (neighbour_mines ?b1 p)
             else cell_at ?b1 p)" and
    other2: "\<And>n. n \<notin> (\<lambda>c. cell_index ?b1 (fst c) (snd c)) ` set cs \<Longrightarrow>
            cells ?b' ! n = cells ?b1 ! n"
    by blast+
  have sm: "same_mines b ?b'"
    using sm1 sm2 by (simp add: same_mines_def)
  have at: "cell_at ?b' p =
      (if p \<in> set (c # cs) \<and> cell_at b p \<noteq> CELL_MINE then of_nat (neighbour_mines b p)
       else cell_at b p)" if "in_grid b p" for p
  proof (cases "p \<in> set cs")
    case True
    with notin have "p \<noteq> c" by auto
    with True that at2 [of p] show ?thesis
      by (simp add: grid1 same_mines_cell_at [OF sm1] same_mines_neighbour_mines [OF sm1])
  next
    case False
    with that at2 [of p] number_cell_at [OF c(1) that c(2)] show ?thesis
      by (auto simp: grid1)
  qed
  have other: "cells ?b' ! n = cells b ! n"
    if "n \<notin> (\<lambda>c. cell_index b (fst c) (snd c)) ` set (c # cs)" for n
    using that other2 [of n] number_cell_other [of n b c] by (auto simp: idx1)
  from sm at other show ?case
    by simp
qed


subsection \<open>The whole of board_init\<close>

lemma area_bound: "sz \<le> MAX_BOARD_SIZE \<Longrightarrow> sz * sz \<le> MAX_BOARD_AREA"
  unfolding MAX_BOARD_AREA_def by (rule mult_le_mono)

lemma board_init_out_of_bounds:
  assumes "0 < sz" "sz \<le> MAX_BOARD_SIZE" "MAX_BOARD_AREA < m"
  shows "board_init rand b0 sz m = Inl OutOfBounds"
proof -
  have "\<exists>i\<in>set [0..<m]. MAX_BOARD_AREA \<le> i"
    using assms(3) by (intro bexI [of _ MAX_BOARD_AREA]) simp_all
  then have "place_mines s [0..<m] c = Inl OutOfBounds" for s c
    by (rule place_mines_out_of_bounds)
  with assms(1,2) show ?thesis
    by (simp add: board_init_def Let_def)
qed

lemma board_init_result:
  assumes "0 < sz" "sz \<le> MAX_BOARD_SIZE" "length (cells b0) = MAX_BOARD_AREA" "m \<le> MAX_BOARD_AREA"
  shows "\<exists>b. board_init rand b0 sz m = Inr b \<and> size_b b = sz \<and>
           length (cells b) = MAX_BOARD_AREA \<and>
           overlay b = memset_entries (overlay b0) OverlayCellHidden
                         (MAX_BOARD_AREA div sizeof_OverlayCell) \<and>
           (\<forall>n<MAX_BOARD_AREA. (cells b ! n = CELL_MINE) =
                (n \<in> (\<lambda>i. shuffled_indices rand (sz * sz) ! i) ` {..<m})) \<and>
           counts_ok b"
proof -
  let ?A = MAX_BOARD_AREA
  let ?S = "shuffled_indices rand (sz * sz)"
  let ?M = "(\<lambda>i. ?S ! i) ` {..<m}"
  let ?b1 = "b0\<lparr>size_b := sz, cells := memset_entries (cells b0) 0 ?A,
                overlay := memset_entries (overlay b0) OverlayCellHidden
                             (?A div sizeof_OverlayCell)\<rparr>"
  have area: "sz * sz \<le> ?A" "0 < sz * sz"
    using assms(1,2) by (simp_all add: area_bound)
  have inv: "shuffle_inv (sz * sz) ?S"
    using area(1) by (rule shuffled_indices_inv)
  have M: "?M \<subseteq> {..<sz * sz}"
    using inv area(2,1) assms(4) by (rule shuffle_mine_set(1))
  have cleared: "memset_entries (cells b0) 0 ?A = replicate ?A 0"
    using assms(3) by (simp add: memset_entries_def)
  have "?S ! i < ?A" if "i < m" for i
  proof -
    from that have "?S ! i \<in> ?M" by simp
    with M have "?S ! i < sz * sz" by blast
    with area(1) show ?thesis by simp
  qed
  with assms(4) have "\<forall>i\<in>set [0..<m]. i < ?A \<and> ?S ! i < ?A"
    by simp
  from place_mines_fold [OF this, of "replicate ?A 0"] obtain c1 where
    c1: "place_mines ?S [0..<m] (replicate ?A 0) = Inr c1" "length c1 = ?A"
      "\<forall>n. c1 ! n = (if n \<in> (\<lambda>i. ?S ! i) ` set [0..<m] \<and> n < ?A then CELL_MINE
                      else replicate ?A 0 ! n)"
    by auto
  define b2 where "b2 = ?b1\<lparr>cells := c1\<rparr>"
  define b where "b = fold number_cell (grid sz) b2"
  have b2: "size_b b2 = sz" "cells b2 = c1" "overlay b2 = overlay ?b1"
    by (simp_all add: b2_def)
  have run: "board_init rand b0 sz m = Inr b"
    using assms(1,2) c1(1) cleared by (simp add: board_init_def Let_def b_def b2_def)
  have mines2: "(c1 ! n = CELL_MINE) = (n \<in> ?M)" if "n < ?A" for n
    using c1(3) that by (simp add: lessThan_atLeast0 CELL_MINE_def)
  have pre: "\<forall>c\<in>set (grid sz). in_grid b2 c \<and> cell_index b2 (fst c) (snd c) < length (cells b2)"
    using assms(2) c1(2) cell_index_bound [of b2]
    by (simp add: set_grid in_grid_def b2)
  from number_cells_fold [OF pre distinct_grid] have
    sm: "same_mines b2 b" and
    at: "\<And>p. in_grid b2 p \<Longrightarrow> cell_at b p =
           (if p \<in> set (grid sz) \<and> cell_at b2 p \<noteq> CELL_MINE then of_nat (neighbour_mines b2 p)
            else cell_at b2 p)"
    unfolding b_def by blast+
  from sm have same: "size_b b = sz" "overlay b = overlay ?b1" "length (cells b) = ?A"
    "\<And>n. (cells b ! n = CELL_MINE) = (c1 ! n = CELL_MINE)"
    by (simp_all add: same_mines_def c1(2) b2)
  have ok: "cell_at b p = CELL_MINE \<or> unat (cell_at b p) = neighbour_mines b p"
    if "p \<in> set (grid sz)" for p
  proof (cases "cell_at b2 p = CELL_MINE")
    case True
    with same_mines_cell_at [OF sm, of p] show ?thesis
      by blast
  next
    case False
    have g: "in_grid b2 p"
      using that by (simp add: set_grid in_grid_def b2)
    have "neighbour_mines b2 p \<le> 9"
      using neighbour_mines_le [OF g] by simp
    then have "unat (of_nat (neighbour_mines b2 p) :: uint8_t) = neighbour_mines b2 p"
      by (rule unat_of_nat_count)
    with False that at [OF g] same_mines_neighbour_mines [OF sm, of p] show ?thesis
      by simp
  qed
  have "counts_ok b"
    using ok by (simp add: counts_ok_def list_all_iff same(1))
  with run same mines2 show ?thesis
    by simp
qed

lemma board_init_returns_bound:
  assumes "0 < sz" "sz \<le> MAX_BOARD_SIZE" "board_init rand b0 sz m = Inr b"
  shows "m \<le> MAX_BOARD_AREA"
proof (rule ccontr)
  assume "\<not> m \<le> MAX_BOARD_AREA"
  then have "board_init rand b0 sz m = Inl OutOfBounds"
    using assms(1,2) by (intro board_init_out_of_bounds) simp_all
  with assms(3) show False by simp
qed


lemma rows_upt: "concat (map (\<lambda>y. map (\<lambda>x. y * w + x) [0..<w]) [0..<h]) = [0..<h * w]"
proof (induction h)
  case 0
  show ?case by simp
next
  case (Suc h)
  have "map (\<lambda>x. h * w + x) [0..<w] = [h * w..<h * w + w]"
    using map_add_upt [of "h * w" w] by (simp add: add.commute)
  moreover have "[0..<h * w + w] = [0..<h * w] @ [h * w..<h * w + w]"
    by (rule upt_add_eq_append) simp
  ultimately show ?case
    using Suc by (simp add: add.commute)
qed

lemma map_cell_index_grid:
  "map (\<lambda>c. cell_index b (fst c) (snd c)) (grid (size_b b)) = [0..<size_b b * size_b b]"
  using rows_upt [of "size_b b" "size_b b"]
  by (simp add: grid_def map_concat comp_def cell_index_def)

lemma mine_count_card:
  "mine_count b = card {n. n < size_b b * size_b b \<and> cells b ! n = CELL_MINE}"
proof -
  let ?f = "\<lambda>c. cell_index b (fst c) (snd c)"
  let ?P = "\<lambda>n. cells b ! n = CELL_MINE"
  have "mine_count b = length (filter (?P \<circ> ?f) (grid (size_b b)))"
    by (simp add: mine_count_def cell_at_def comp_def)
  also have "\<dots> = length (filter ?P (map ?f (grid (size_b b))))"
    by (simp add: filter_map)
  also have "\<dots> = length (filter ?P [0..<size_b b * size_b b])"
    by (simp only: map_cell_index_grid)
  also have "\<dots> = card ({n. ?P n} \<inter> set [0..<size_b b * size_b b])"
    by (simp add: distinct_length_filter)
  also have "{n. ?P n} \<inter> set [0..<size_b b * size_b b] =
             {n. n < size_b b * size_b b \<and> cells b ! n = CELL_MINE}"
    by auto
  finally show ?thesis .
qed

lemma board_init_Inr:
  assumes "board_init rand b0 sz m = Inr b"
  shows "0 < sz \<and> sz \<le> MAX_BOARD_SIZE \<and> m \<le> MAX_BOARD_AREA"
proof -
  from assms have sz: "0 < sz" "sz \<le> MAX_BOARD_SIZE"
    by (auto simp: board_init_def split: if_splits)
  with assms board_init_returns_bound show ?thesis
    by blast
qed

lemma static_board_arrays:
  "length (cells static_board) = MAX_BOARD_AREA"
  "memset_entries (overlay static_board) OverlayCellHidden (MAX_BOARD_AREA div sizeof_OverlayCell) =
     replicate MAX_BOARD_AREA OverlayCellHidden"
  by (simp_all add: static_board_def memset_entries_def replicate_add [symmetric])

lemma board_init_static:
  assumes "0 < sz" "sz \<le> MAX_BOARD_SIZE" "m \<le> MAX_BOARD_AREA"
  shows "\<exists>b. board_init rand static_board sz m = Inr b \<and> size_b b = sz \<and> wf_board b \<and>
           overlay b = replicate MAX_BOARD_AREA OverlayCellHidden \<and>
           mine_count b = min m (sz * sz) \<and>
           length (filter (\<lambda>v. v = CELL_MINE) (cells b)) = min m (sz * sz) \<and>
           counts_ok b"
proof -
  let ?A = MAX_BOARD_AREA
  let ?S = "shuffled_indices rand (sz * sz)"
  let ?M = "(\<lambda>i. ?S ! i) ` {..<m}"
  from board_init_result [OF assms(1,2) static_board_arrays(1) assms(3), of rand]
  obtain b where b: "board_init rand static_board sz m = Inr b" "size_b b = sz"
      "length (cells b) = ?A" "overlay b = replicate ?A OverlayCellHidden"
      "\<forall>n<?A. (cells b ! n = CELL_MINE) = (n \<in> ?M)" "counts_ok b"
    by (auto simp: static_board_arrays(2))
  have area: "sz * sz \<le> ?A" "0 < sz * sz"
    using assms(1,2) by (simp_all add: area_bound)
  have inv: "shuffle_inv (sz * sz) ?S"
    using area(1) by (rule shuffled_indices_inv)
  have M: "?M \<subseteq> {..<sz * sz}" "card ?M = min m (sz * sz)"
    using shuffle_mine_set [OF inv area(2,1) assms(3)] by simp_all
  have "{n. n < sz * sz \<and> cells b ! n = CELL_MINE} = ?M"
    using b(5) M(1) area(1) by (auto simp: subset_iff)
  then have grid_count: "mine_count b = min m (sz * sz)"
    using M(2) by (simp add: mine_count_card b(2))
  have "{i. i < length (cells b) \<and> cells b ! i = CELL_MINE} = ?M"
    using b(3,5) M(1) area(1) by (auto simp: subset_iff)
  then have array_count: "length (filter (\<lambda>v. v = CELL_MINE) (cells b)) = min m (sz * sz)"
    using M(2) by (simp add: length_filter_conv_card)
  have "wf_board b"
    using b(2,3,4) assms(2) by (simp add: wf_board_def)
  with b grid_count array_count show ?thesis
    by blast
qed

text \<open>
  With the range check of \<^verbatim>\<open>main\<close> in front, every requested number of mines gives a
  board, with the area as the upper bound of the mines placed.
\<close>

lemma board_init_after_clamp:
  assumes "0 < sz" "sz \<le> MAX_BOARD_SIZE"
  shows "\<exists>b. board_init rand static_board sz (clamp_mines m) = Inr b \<and>
           mine_count b = min m (sz * sz)"
proof -
  have le: "clamp_mines m \<le> MAX_BOARD_AREA"
    by (simp add: clamp_mines_def)
  have "min (clamp_mines m) (sz * sz) = min m (sz * sz)"
    using area_bound [OF assms(2)] by (simp add: clamp_mines_def)
  with board_init_static [OF assms le, of rand] show ?thesis
    by auto
qed

lemma example_board_init: "board_init rand_zero static_board 3 1 = Inr example_board"
  by code_simp


lemma counts_okD:
  assumes "counts_ok b" "in_grid b p" "cell_at b p \<noteq> CELL_MINE"
  shows "unat (cell_at b p) = neighbour_mines b p"
proof -
  have "p \<in> set (grid (size_b b))"
    using assms(2) by (simp add: set_grid in_grid_def)
  with assms(1,3) show ?thesis
    by (auto simp: counts_ok_def list_all_iff)
qed

text \<open>
  Claim C2, as the code has it. For a size from 1 to \<open>MAX_BOARD_SIZE\<close> and a number of
  mines up to \<open>MAX_BOARD_AREA\<close>, which is the bound that \<^verbatim>\<open>main\<close> clamps the number to
  before the call, \<^verbatim>\<open>board_init\<close> on the zero-initialised static board returns a board
  of that size on which exactly \<open>min num_mines (sz * sz)\<close> cells of the grid, and entries of
  the cell array, hold \<open>CELL_MINE\<close>, and on which every overlay entry is Hidden. A number of
  mines between the area and \<open>MAX_BOARD_AREA\<close> fills the board.
\<close>

theorem board_init_mines:
  assumes "0 < sz" "sz \<le> MAX_BOARD_SIZE" "num_mines \<le> MAX_BOARD_AREA"
  shows "\<exists>b. board_init rand static_board sz num_mines = Inr b \<and> size_b b = sz \<and>
           mine_count b = min num_mines (sz * sz) \<and>
           length (filter (\<lambda>v. v = CELL_MINE) (cells b)) = min num_mines (sz * sz) \<and>
           overlay b = replicate MAX_BOARD_AREA OverlayCellHidden"
  using board_init_static [OF assms, of rand] by blast

theorem board_init_mines_witness:
  "(0::nat) < 3 \<and> 3 \<le> MAX_BOARD_SIZE \<and> 20 \<le> MAX_BOARD_AREA \<and>
   (\<exists>b. board_init rand_zero static_board 3 20 = Inr b \<and> size_b b = 3 \<and> mine_count b = 9 \<and>
      overlay b = replicate MAX_BOARD_AREA OverlayCellHidden)"
proof -
  have h: "(0::nat) < 3" "3 \<le> MAX_BOARD_SIZE" "20 \<le> MAX_BOARD_AREA"
    by (simp_all add: MAX_BOARD_SIZE_def MAX_BOARD_AREA_def)
  from board_init_mines [OF h, of rand_zero] h show ?thesis
    by auto
qed

text \<open>
  Claim C2 as it is stated fails above \<open>MAX_BOARD_AREA\<close>: with 677 mines the mine loop reads
  \<^verbatim>\<open>shuffled_indices[676]\<close>, outside the array.
\<close>

theorem board_init_too_many_mines:
  "board_init rand_zero static_board 1 677 = Inl OutOfBounds"
  by (rule board_init_out_of_bounds) (simp_all add: MAX_BOARD_SIZE_def MAX_BOARD_AREA_def)

text \<open>
  Claim C3. For a size from 1 to \<open>MAX_BOARD_SIZE\<close> and any number of mines, on every board
  that \<^verbatim>\<open>board_init\<close> returns, each cell of the grid without a mine holds the number of
  its neighbours with a mine, and that number is at most 8. The call returns a board for
  every number of mines up to \<open>MAX_BOARD_AREA\<close>.
\<close>

theorem board_init_counts:
  assumes "0 < sz" "sz \<le> MAX_BOARD_SIZE" "length (cells b0) = MAX_BOARD_AREA"
  shows "(\<forall>b. board_init rand b0 sz num_mines = Inr b \<longrightarrow>
            (\<forall>p. in_grid b p \<and> cell_at b p \<noteq> CELL_MINE \<longrightarrow>
               unat (cell_at b p) = neighbour_mines b p \<and> unat (cell_at b p) \<le> 8)) \<and>
         (num_mines \<le> MAX_BOARD_AREA \<longrightarrow> (\<exists>b. board_init rand b0 sz num_mines = Inr b))"
proof -
  have "unat (cell_at b p) = neighbour_mines b p \<and> unat (cell_at b p) \<le> 8"
    if run: "board_init rand b0 sz num_mines = Inr b" and p: "in_grid b p" "cell_at b p \<noteq> CELL_MINE"
    for b p
  proof -
    have "num_mines \<le> MAX_BOARD_AREA"
      using assms(1,2) run by (rule board_init_returns_bound)
    from board_init_result [OF assms this, of rand] run have "counts_ok b"
      by auto
    with p have "unat (cell_at b p) = neighbour_mines b p"
      by (intro counts_okD)
    with neighbour_mines_le [OF p(1)] show ?thesis
      by simp
  qed
  moreover have "\<exists>b. board_init rand b0 sz num_mines = Inr b" if "num_mines \<le> MAX_BOARD_AREA"
    using board_init_result [OF assms that, of rand] by blast
  ultimately show ?thesis
    by blast
qed

theorem board_init_counts_witness:
  "(0::nat) < 3 \<and> 3 \<le> MAX_BOARD_SIZE \<and> length (cells static_board) = MAX_BOARD_AREA \<and>
   board_init rand_zero static_board 3 1 = Inr example_board \<and>
   in_grid example_board (1, 1) \<and> cell_at example_board (1, 1) \<noteq> CELL_MINE \<and>
   unat (cell_at example_board (1, 1)) = neighbour_mines example_board (1, 1)"
proof -
  have h: "(0::nat) < 3" "3 \<le> MAX_BOARD_SIZE"
    by (simp_all add: MAX_BOARD_SIZE_def)
  have p: "in_grid example_board (1, 1)" "cell_at example_board (1, 1) \<noteq> CELL_MINE"
    by (simp_all add: in_grid_def cell_at_def cell_index_def example_board_def CELL_MINE_def)
  from board_init_counts [OF h static_board_arrays(1), of rand_zero 1] example_board_init p
  have "unat (cell_at example_board (1, 1)) = neighbour_mines example_board (1, 1)"
    by blast
  with h p example_board_init static_board_arrays(1) show ?thesis
    by simp
qed

section \<open>Reachable boards\<close>

lemma board_mark_effect:
  assumes "wf_board b" "in_grid b (x, y)" "board_mark b x y = Inr b'"
  shows "size_b b' = size_b b \<and> cells b' = cells b \<and> length (overlay b') = length (overlay b) \<and>
         (\<forall>n. overlay b' ! n = overlay b ! n \<or>
              overlay b ! n = OverlayCellHidden \<and> overlay b' ! n = OverlayCellMarked \<or>
              overlay b ! n = OverlayCellMarked \<and> overlay b' ! n = OverlayCellHidden)"
proof -
  have n: "cell_index b x y < MAX_BOARD_AREA"
    using in_grid_index [OF assms(1,2)] by simp
  show ?thesis
  proof (cases "overlay b ! cell_index b x y")
    case OverlayCellHidden
    with assms(3) n have "b' = b\<lparr>overlay := (overlay b)[cell_index b x y := OverlayCellMarked]\<rparr>"
      by (simp add: board_mark_def)
    with OverlayCellHidden show ?thesis
      by (simp add: nth_list_update_if)
  next
    case OverlayCellVisible
    with assms(3) n show ?thesis
      by (simp add: board_mark_def)
  next
    case OverlayCellMarked
    with assms(3) n have "b' = b\<lparr>overlay := (overlay b)[cell_index b x y := OverlayCellHidden]\<rparr>"
      by (simp add: board_mark_def)
    with OverlayCellMarked show ?thesis
      by (simp add: nth_list_update_if)
  qed
qed

lemma board_mark_returns:
  assumes "wf_board b" "in_grid b (x, y)"
  shows "\<exists>b'. board_mark b x y = Inr b'"
  using in_grid_index [OF assms]
  by (cases "overlay b ! cell_index b x y") (simp_all add: board_mark_def)

lemma reachable_wf: "reachable b \<Longrightarrow> wf_board b"
proof (induction rule: reachable.induct)
  case (reachable_init rand sz num_mines b)
  from board_init_Inr [OF reachable_init] board_init_static [of sz num_mines rand] reachable_init
  show ?case by auto
next
  case (reachable_reveal b x y fuel b')
  then have "reveals b x y b'"
    by (intro board_reveal_reveals(1)) (simp_all add: in_grid_def)
  then have "reveal_ext b b'"
    by (rule reveals_ext)
  with reachable_reveal.IH show ?case
    by (simp add: reveal_ext_wf)
next
  case (reachable_mark b x y b')
  then have "size_b b' = size_b b \<and> cells b' = cells b \<and> length (overlay b') = length (overlay b)"
    using board_mark_effect [of b x y b'] by (simp add: in_grid_def)
  with reachable_mark.IH show ?case
    by (simp add: wf_board_def)
qed

text \<open>
  Claim C8. On a reachable board and for a cell of the grid: after \<^verbatim>\<open>board_reveal\<close> and
  after \<^verbatim>\<open>board_mark\<close>, every overlay entry that was Visible is Visible; an entry that is
  Visible after \<^verbatim>\<open>board_mark\<close> was Visible before, so no Marked or Hidden entry becomes
  Visible by marking; an entry that is Visible after \<^verbatim>\<open>board_reveal\<close> was Visible or Hidden
  before. Both operations return a board, \<^verbatim>\<open>board_reveal\<close> with a depth above the area.
\<close>

theorem visible_stays_visible:
  assumes "reachable b" "x < size_b b" "y < size_b b"
  shows "(\<forall>fuel b'. board_reveal fuel b x y = Inr b' \<longrightarrow>
            (\<forall>n. overlay b ! n = OverlayCellVisible \<longrightarrow> overlay b' ! n = OverlayCellVisible) \<and>
            (\<forall>n. overlay b' ! n = OverlayCellVisible \<longrightarrow>
                 overlay b ! n = OverlayCellVisible \<or> overlay b ! n = OverlayCellHidden)) \<and>
         (\<forall>b'. board_mark b x y = Inr b' \<longrightarrow>
            (\<forall>n. (overlay b' ! n = OverlayCellVisible) = (overlay b ! n = OverlayCellVisible))) \<and>
         (\<exists>b'. board_mark b x y = Inr b') \<and>
         (\<exists>b'. board_reveal (Suc (size_b b * size_b b)) b x y = Inr b')"
proof -
  have wf: "wf_board b"
    using assms(1) by (rule reachable_wf)
  have g: "in_grid b (x, y)"
    using assms(2,3) by (simp add: in_grid_def)
  have reveal: "(\<forall>n. overlay b ! n = OverlayCellVisible \<longrightarrow> overlay b' ! n = OverlayCellVisible) \<and>
      (\<forall>n. overlay b' ! n = OverlayCellVisible \<longrightarrow>
           overlay b ! n = OverlayCellVisible \<or> overlay b ! n = OverlayCellHidden)"
    if "board_reveal fuel b x y = Inr b'" for fuel b'
  proof -
    have "reveal_ext b b'"
      using board_reveal_reveals(1) [OF wf g that] by (rule reveals_ext)
    then have "overlay b' ! n = overlay b ! n \<or>
        overlay b ! n = OverlayCellHidden \<and> overlay b' ! n = OverlayCellVisible" for n
      by (simp add: reveal_ext_def)
    then show ?thesis
      by (metis OverlayCell.distinct(1))
  qed
  have mark: "(overlay b' ! n = OverlayCellVisible) = (overlay b ! n = OverlayCellVisible)"
    if "board_mark b x y = Inr b'" for b' n
  proof -
    have "overlay b' ! n = overlay b ! n \<or>
        overlay b ! n = OverlayCellHidden \<and> overlay b' ! n = OverlayCellMarked \<or>
        overlay b ! n = OverlayCellMarked \<and> overlay b' ! n = OverlayCellHidden"
      using board_mark_effect [OF wf g that] by blast
    then show ?thesis
      by auto
  qed
  have "\<exists>b'. board_reveal (Suc (size_b b * size_b b)) b x y = Inr b'"
    using hidden_count_le [of b] by (intro board_reveal_terminates(1) wf g) simp
  with reveal mark board_mark_returns [OF wf g] show ?thesis
    by blast
qed

lemma reachable_example_board: "reachable example_board"
  using example_board_init by (rule reachable_init)

lemma example_revealed_run: "board_reveal 10 example_board 1 1 = Inr example_revealed"
  by code_simp

lemma reachable_example_revealed: "reachable example_revealed"
  using reachable_example_board _ _ example_revealed_run
  by (rule reachable_reveal) (simp_all add: example_board_def)

theorem visible_stays_visible_witness:
  "reachable example_revealed \<and> (0::nat) < size_b example_revealed \<and>
   overlay example_revealed ! 4 = OverlayCellVisible \<and>
   (\<exists>b'. board_mark example_revealed 0 0 = Inr b' \<and> overlay b' ! 4 = OverlayCellVisible) \<and>
   (\<exists>b'. board_reveal 10 example_revealed 0 0 = Inr b' \<and> overlay b' ! 4 = OverlayCellVisible)"
proof -
  have sz: "(0::nat) < size_b example_revealed"
    "Suc (size_b example_revealed * size_b example_revealed) = 10"
    by (simp_all add: example_revealed_def example_board_def)
  have vis: "overlay example_revealed ! 4 = OverlayCellVisible"
    by (simp add: example_revealed_def example_board_def MAX_BOARD_AREA_def MAX_BOARD_SIZE_def)
  from visible_stays_visible [OF reachable_example_revealed sz(1) sz(1)] vis sz(2)
  have "(\<exists>b'. board_mark example_revealed 0 0 = Inr b' \<and> overlay b' ! 4 = OverlayCellVisible) \<and>
        (\<exists>b'. board_reveal 10 example_revealed 0 0 = Inr b' \<and> overlay b' ! 4 = OverlayCellVisible)"
    by (metis (no_types, lifting))
  with reachable_example_revealed sz(1) vis show ?thesis
    by blast
qed

section \<open>The flood reveal\<close>

lemma block3_adj8:
  assumes "in_grid b p"
  shows "set (block3 (size_b b) (fst p) (snd p)) = insert p {q. adj8 b p q}"
  using assms by (cases p) (auto simp: set_block3 adj8_def in_grid_def)

lemma flood_closed_ext:
  "reveal_ext b b' \<Longrightarrow> flood_closed b' T = flood_closed b T"
  by (simp add: flood_closed_def reveal_ext_in_grid reveal_ext_cell_at) (simp add: reveal_ext_def)

lemma cell_index_ext:
  "reveal_ext b b' \<Longrightarrow> cell_index b' x y = cell_index b x y"
  by (simp add: reveal_ext_def cell_index_def)

lemma set_visible_ext:
  assumes "overlay_at b (x, y) = OverlayCellHidden"
  shows "reveal_ext b (b\<lparr>overlay := (overlay b)[cell_index b x y := OverlayCellVisible]\<rparr>)"
  using assms by (simp add: reveal_ext_set_visible overlay_at_def)

text \<open>Soundness: a reveal that starts in a closed set changes overlay entries of that set only.\<close>

lemma reveals_frame:
  shows "reveals b x y b' \<Longrightarrow> flood_closed b T \<Longrightarrow> (x, y) \<in> T \<Longrightarrow>
         \<forall>n. n \<notin> (\<lambda>c. cell_index b (fst c) (snd c)) ` T \<longrightarrow> overlay b' ! n = overlay b ! n"
    and "reveals_block b cs b' \<Longrightarrow> flood_closed b T \<Longrightarrow> set cs \<subseteq> T \<Longrightarrow>
         \<forall>n. n \<notin> (\<lambda>c. cell_index b (fst c) (snd c)) ` T \<longrightarrow> overlay b' ! n = overlay b ! n"
proof (induction rule: reveals_reveals_block.inducts)
  case (reveals_not_hidden b x y)
  show ?case by simp
next
  case (reveals_single b x y)
  have "cell_index b x y \<in> (\<lambda>c. cell_index b (fst c) (snd c)) ` T"
    using reveals_single.prems(2) by force
  then show ?case
    by (auto simp: nth_list_update_if)
next
  case (reveals_flood b x y b')
  let ?b1 = "b\<lparr>overlay := (overlay b)[cell_index b x y := OverlayCellVisible]\<rparr>"
  have ext: "reveal_ext b ?b1"
    using reveals_flood.hyps(3) by (rule set_visible_ext)
  have closed1: "flood_closed ?b1 T"
    using reveals_flood.prems(1) by (simp add: flood_closed_ext [OF ext])
  have "set (block3 (size_b b) (fst (x, y)) (snd (x, y))) \<subseteq> T"
    using reveals_flood.prems reveals_flood.hyps(4) unfolding flood_closed_def by blast
  then have "set (block3 (size_b ?b1) x y) \<subseteq> T"
    by simp
  from reveals_flood.IH [OF closed1] this
  have rest: "\<forall>n. n \<notin> (\<lambda>c. cell_index b (fst c) (snd c)) ` T \<longrightarrow> overlay b' ! n = overlay ?b1 ! n"
    by simp
  have "cell_index b x y \<in> (\<lambda>c. cell_index b (fst c) (snd c)) ` T"
    using reveals_flood.prems(2) by force
  with rest show ?case
    by (auto simp: nth_list_update_if)
next
  case (reveals_block_nil b)
  show ?case by simp
next
  case (reveals_block_cons b i j b1 cs b')
  have ext: "reveal_ext b b1"
    using reveals_block_cons.hyps(1) by (rule reveals_ext)
  have first: "\<forall>n. n \<notin> (\<lambda>c. cell_index b (fst c) (snd c)) ` T \<longrightarrow> overlay b1 ! n = overlay b ! n"
    using reveals_block_cons.IH(1) reveals_block_cons.prems by simp
  have "flood_closed b1 T"
    using reveals_block_cons.prems(1) by (simp add: flood_closed_ext [OF ext])
  from reveals_block_cons.IH(2) [OF this] reveals_block_cons.prems(2)
  have "\<forall>n. n \<notin> (\<lambda>c. cell_index b (fst c) (snd c)) ` T \<longrightarrow> overlay b' ! n = overlay b1 ! n"
    by (simp add: cell_index_ext [OF ext])
  with first show ?case
    by simp
qed

text \<open>Completeness: a reveal adds no cell to the frontier.\<close>

lemma frontier_ext:
  assumes "reveal_ext b b'" "p \<in> frontier b'" "overlay_at b p = OverlayCellVisible"
  shows "p \<in> frontier b"
proof -
  from assms(2) obtain q where
    p: "in_grid b' p" "cell_at b' p = CELL_EMPTY" and
    q: "q \<in> set (block3 (size_b b') (fst p) (snd p))" "overlay_at b' q = OverlayCellHidden"
    by (auto simp: frontier_def)
  have "overlay_at b q = OverlayCellHidden"
    using assms(1) q(2) by (rule reveal_ext_hidden_after)
  moreover have "size_b b' = size_b b"
    using assms(1) by (simp add: reveal_ext_def)
  ultimately show ?thesis
    using p q(1) assms(3) by (auto simp: frontier_def reveal_ext_in_grid [OF assms(1)]
        reveal_ext_cell_at [OF assms(1)])
qed

lemma frontier_set_visible:
  assumes "wf_board b" "in_grid b (x, y)" "overlay_at b (x, y) = OverlayCellHidden"
  shows "frontier (b\<lparr>overlay := (overlay b)[cell_index b x y := OverlayCellVisible]\<rparr>) \<subseteq>
         insert (x, y) (frontier b)"
proof
  let ?b1 = "b\<lparr>overlay := (overlay b)[cell_index b x y := OverlayCellVisible]\<rparr>"
  fix p assume p: "p \<in> frontier ?b1"
  have ext: "reveal_ext b ?b1"
    using assms(3) by (rule set_visible_ext)
  show "p \<in> insert (x, y) (frontier b)"
  proof (cases "p = (x, y)")
    case True
    then show ?thesis by simp
  next
    case False
    from p have "in_grid b p" "overlay_at ?b1 p = OverlayCellVisible"
      by (simp_all add: frontier_def)
    with False assms(2) have "overlay_at b p = OverlayCellVisible"
      by (simp add: overlay_at_update_other in_grid_def)
    with ext p show ?thesis
      by (simp add: frontier_ext)
  qed
qed

lemma reveals_frontier:
  shows "reveals b x y b' \<Longrightarrow> frontier b' \<subseteq> frontier b"
    and "reveals_block b cs b' \<Longrightarrow> frontier b' \<subseteq> frontier b"
proof (induction rule: reveals_reveals_block.inducts)
  case (reveals_not_hidden b x y)
  show ?case by simp
next
  case (reveals_single b x y)
  let ?b1 = "b\<lparr>overlay := (overlay b)[cell_index b x y := OverlayCellVisible]\<rparr>"
  have "(x, y) \<notin> frontier ?b1"
    using reveals_single.hyps(4) by (simp add: frontier_def)
  with frontier_set_visible [OF reveals_single.hyps(1,2,3)] show ?case
    by auto
next
  case (reveals_flood b x y b')
  let ?b1 = "b\<lparr>overlay := (overlay b)[cell_index b x y := OverlayCellVisible]\<rparr>"
  have "reveal_ext ?b1 b'"
    using reveals_flood.hyps(5) by (rule reveals_ext)
  then have "size_b b' = size_b b"
    by (simp add: reveal_ext_def)
  moreover have "\<forall>c\<in>set (block3 (size_b b) x y). overlay_at b' c \<noteq> OverlayCellHidden"
    using reveals_flood.hyps(5) by (rule reveals_target(2))
  ultimately have "(x, y) \<notin> frontier b'"
    by (auto simp: frontier_def)
  with reveals_flood.IH frontier_set_visible [OF reveals_flood.hyps(1,2,3)] show ?case
    by auto
next
  case (reveals_block_nil b)
  show ?case by simp
next
  case (reveals_block_cons b i j b1 cs b')
  then show ?case by auto
qed


lemma zero_region_cells:
  "p \<in> zero_region b p0 \<Longrightarrow> in_grid b p \<and> cell_at b p = CELL_EMPTY"
  by (induction rule: zero_region.induct) (simp_all add: adj8_def)

lemma zero_region_closed:
  "flood_closed b (zero_region b p0 \<union> {q. \<exists>p\<in>zero_region b p0. adj8 b p q})"
  unfolding flood_closed_def
proof (intro ballI conjI impI)
  let ?Z = "zero_region b p0"
  fix p assume p: "p \<in> ?Z \<union> {q. \<exists>p\<in>?Z. adj8 b p q}"
  then show g: "in_grid b p"
    using zero_region_cells [of p b p0] by (auto simp: adj8_def)
  assume "cell_at b p = CELL_EMPTY"
  with p have "p \<in> ?Z"
    by (auto intro: zero_region_step)
  then show "set (block3 (size_b b) (fst p) (snd p)) \<subseteq> ?Z \<union> {q. \<exists>p\<in>?Z. adj8 b p q}"
    using g by (auto simp: block3_adj8)
qed

lemma no_mine_near_zero:
  assumes "counts_ok b" "in_grid b p" "cell_at b p = CELL_EMPTY" "adj8 b p q"
  shows "cell_at b q \<noteq> CELL_MINE"
proof
  assume mine: "cell_at b q = CELL_MINE"
  have "cell_at b p \<noteq> CELL_MINE"
    using assms(3) by (simp add: CELL_EMPTY_def CELL_MINE_def)
  with assms(1,2) have "unat (cell_at b p) = neighbour_mines b p"
    by (rule counts_okD)
  with assms(3) have "filter (\<lambda>q. adj8 b p q \<and> cell_at b q = CELL_MINE) (grid (size_b b)) = []"
    by (simp add: neighbour_mines_def CELL_EMPTY_def)
  moreover have "q \<in> set (grid (size_b b))"
    using assms(4) by (simp add: set_grid adj8_def in_grid_def)
  ultimately show False
    using assms(4) mine by (simp add: filter_empty_conv)
qed

lemma border_numbered:
  assumes "counts_ok b" "p \<in> zero_region b p0" "adj8 b p q" "q \<notin> zero_region b p0"
  shows "numbered b q"
proof -
  have p: "in_grid b p" "cell_at b p = CELL_EMPTY"
    using zero_region_cells [OF assms(2)] by simp_all
  have q: "in_grid b q"
    using assms(3) by (simp add: adj8_def)
  have not_empty: "cell_at b q \<noteq> CELL_EMPTY"
    using assms(2,3,4) by (auto intro: zero_region_step)
  have "cell_at b q \<noteq> CELL_MINE"
    using assms(1) p assms(3) by (rule no_mine_near_zero)
  with assms(1) q have "unat (cell_at b q) = neighbour_mines b q"
    by (rule counts_okD)
  moreover have "unat (cell_at b q) \<noteq> 0"
    using not_empty by (simp add: CELL_EMPTY_def unat_eq_0)
  ultimately show ?thesis
    using neighbour_mines_le [OF q] by (simp add: numbered_def)
qed

lemma zero_region_border:
  assumes "counts_ok b"
  shows "zero_region b p0 \<union> {q. \<exists>p\<in>zero_region b p0. adj8 b p q} =
         zero_region b p0 \<union> border b (zero_region b p0)"
proof -
  have "q \<in> border b (zero_region b p0)"
    if "p \<in> zero_region b p0" "adj8 b p q" "q \<notin> zero_region b p0" for p q
    using that border_numbered [OF assms that] unfolding border_def by blast
  then show ?thesis
    unfolding border_def by blast
qed

text \<open>
  The flood reveal on any well-formed board with a Hidden grid: the Visible cells afterwards
  are the zero-region of the cell and all neighbours of its cells.
\<close>

lemma flood_region_visible:
  assumes "wf_board b" "\<forall>c. in_grid b c \<longrightarrow> overlay_at b c = OverlayCellHidden"
    "in_grid b (x, y)" "cell_at b (x, y) = CELL_EMPTY" "reveals b x y b'"
  defines "T \<equiv> zero_region b (x, y) \<union> {q. \<exists>p\<in>zero_region b (x, y). adj8 b p q}"
  shows "visible_cells b' = T"
    and "\<forall>n. n \<notin> (\<lambda>c. cell_index b (fst c) (snd c)) ` T \<longrightarrow> overlay b' ! n = overlay b ! n"
proof -
  let ?Z = "zero_region b (x, y)"
  have ext: "reveal_ext b b'"
    using assms(5) by (rule reveals_ext)
  have grid': "in_grid b' c = in_grid b c" for c
    using ext by (rule reveal_ext_in_grid)
  have size': "size_b b' = size_b b"
    using ext by (simp add: reveal_ext_def)
  have start: "(x, y) \<in> ?Z"
    using assms(3,4) by (rule zero_region_start)
  have closed: "flood_closed b T"
    unfolding T_def by (rule zero_region_closed)
  have T_grid: "in_grid b p" if "p \<in> T" for p
    using closed that by (simp add: flood_closed_def)
  have "(x, y) \<in> T"
    using start unfolding T_def by blast
  with assms(5) closed
  show frame: "\<forall>n. n \<notin> (\<lambda>c. cell_index b (fst c) (snd c)) ` T \<longrightarrow> overlay b' ! n = overlay b ! n"
    by (rule reveals_frame(1))
  have opened: "overlay_at b' c = OverlayCellVisible" if "in_grid b c" "overlay_at b' c \<noteq> OverlayCellHidden" for c
    using reveal_ext_overlay_at [OF ext, of c] assms(2) that by auto
  have "frontier b = {}"
    using assms(2) by (auto simp: frontier_def)
  with reveals_frontier(1) [OF assms(5)] have no_frontier: "frontier b' = {}"
    by simp
  have spread: "overlay_at b' q = OverlayCellVisible"
    if p: "in_grid b p" "cell_at b p = CELL_EMPTY" "overlay_at b' p = OverlayCellVisible"
      and q: "adj8 b p q" for p q
  proof -
    have "q \<in> set (block3 (size_b b') (fst p) (snd p))"
      using p(1) q by (simp add: size' block3_adj8)
    moreover have "p \<notin> frontier b'"
      using no_frontier by simp
    ultimately have "overlay_at b' q \<noteq> OverlayCellHidden"
      using p by (auto simp: frontier_def grid' reveal_ext_cell_at [OF ext])
    moreover have "in_grid b q"
      using q by (simp add: adj8_def)
    ultimately show ?thesis
      by (intro opened)
  qed
  have region: "overlay_at b' p = OverlayCellVisible" if "p \<in> ?Z" for p
    using that
  proof (induction rule: zero_region.induct)
    case zero_region_start
    show ?case
      using reveals_target(1) [OF assms(5)] assms(3) by (intro opened)
  next
    case (zero_region_step p q)
    with zero_region_cells [of p b "(x, y)"] show ?case
      by (intro spread [of p q]) simp_all
  qed
  have sup: "T \<subseteq> visible_cells b'"
  proof
    fix c assume c: "c \<in> T"
    have "overlay_at b' c = OverlayCellVisible"
    proof (cases "c \<in> ?Z")
      case True
      then show ?thesis by (rule region)
    next
      case False
      with c obtain p where "p \<in> ?Z" "adj8 b p c"
        by (auto simp: T_def)
      with zero_region_cells [of p b "(x, y)"] region [of p] show ?thesis
        by (intro spread [of p c]) simp_all
    qed
    with T_grid [OF c] show "c \<in> visible_cells b'"
      by (simp add: visible_cells_def grid')
  qed
  have sub: "visible_cells b' \<subseteq> T"
  proof
    fix c assume "c \<in> visible_cells b'"
    then have c: "in_grid b c" "overlay_at b' c = OverlayCellVisible"
      by (simp_all add: visible_cells_def grid')
    show "c \<in> T"
    proof (rule ccontr)
      assume out: "c \<notin> T"
      have "cell_index b (fst c) (snd c) \<notin> (\<lambda>c. cell_index b (fst c) (snd c)) ` T"
      proof
        assume "cell_index b (fst c) (snd c) \<in> (\<lambda>c. cell_index b (fst c) (snd c)) ` T"
        then obtain d where d: "d \<in> T" "cell_index b (fst c) (snd c) = cell_index b (fst d) (snd d)"
          by auto
        with T_grid [OF d(1)] c(1) have "c = d"
          using cell_index_inj [of "fst c" b "fst d" "snd c" "snd d"]
          by (simp add: in_grid_def prod_eq_iff)
        with d(1) out show False by simp
      qed
      with frame have "overlay b' ! cell_index b (fst c) (snd c) = overlay b ! cell_index b (fst c) (snd c)"
        by blast
      then have "overlay_at b' c = overlay_at b c"
        by (simp add: overlay_at_def cell_index_ext [OF ext])
      with c assms(2) show False
        by simp
    qed
  qed
  from sub sup show "visible_cells b' = T"
    by (rule subset_antisym)
qed


text \<open>
  Claim C4. On a well-formed board whose cells without a mine hold the number of their
  neighbours with a mine, with every cell of the grid Hidden, \<^verbatim>\<open>board_reveal\<close> on a cell of
  the grid with the value \<open>CELL_EMPTY\<close> returns a board on which the Visible cells are exactly
  the connected zero-region of the cell together with the numbered cells that border it. The
  overlay of every other cell, every overlay entry outside these cells, the cell values and
  the size are as before.
\<close>

theorem flood_reveal:
  assumes "wf_board b" "counts_ok b" "\<forall>c. in_grid b c \<longrightarrow> overlay_at b c = OverlayCellHidden"
    "x < size_b b" "y < size_b b" "cell_at b (x, y) = CELL_EMPTY" "size_b b * size_b b < fuel"
  shows "\<exists>b'. board_reveal fuel b x y = Inr b' \<and>
           visible_cells b' = zero_region b (x, y) \<union> border b (zero_region b (x, y)) \<and>
           size_b b' = size_b b \<and> cells b' = cells b \<and>
           (\<forall>c. in_grid b c \<and> c \<notin> zero_region b (x, y) \<union> border b (zero_region b (x, y)) \<longrightarrow>
                overlay_at b' c = overlay_at b c) \<and>
           (\<forall>n. n \<notin> (\<lambda>c. cell_index b (fst c) (snd c)) `
                      (zero_region b (x, y) \<union> border b (zero_region b (x, y))) \<longrightarrow>
                overlay b' ! n = overlay b ! n)"
proof -
  let ?T = "zero_region b (x, y) \<union> border b (zero_region b (x, y))"
  have g: "in_grid b (x, y)"
    using assms(4,5) by (simp add: in_grid_def)
  have "hidden_count b < fuel"
    using assms(7) hidden_count_le [of b] by simp
  from board_reveal_total [OF assms(1) g this] obtain b' where
    run: "board_reveal fuel b x y = Inr b'" and r: "reveals b x y b'"
    by blast
  have ext: "reveal_ext b b'"
    using r by (rule reveals_ext)
  have T: "zero_region b (x, y) \<union> {q. \<exists>p\<in>zero_region b (x, y). adj8 b p q} = ?T"
    using assms(2) by (rule zero_region_border)
  have vis: "visible_cells b' = ?T"
    using flood_region_visible(1) [OF assms(1,3) g assms(6) r] T by simp
  have frame: "\<forall>n. n \<notin> (\<lambda>c. cell_index b (fst c) (snd c)) ` ?T \<longrightarrow> overlay b' ! n = overlay b ! n"
    using flood_region_visible(2) [OF assms(1,3) g assms(6) r] T by simp
  have others: "overlay_at b' c = overlay_at b c" if "in_grid b c" "c \<notin> ?T" for c
  proof -
    from that vis have "overlay_at b' c \<noteq> OverlayCellVisible"
      by (auto simp: visible_cells_def reveal_ext_in_grid [OF ext])
    with reveal_ext_overlay_at [OF ext, of c] show ?thesis
      by auto
  qed
  from ext have "size_b b' = size_b b" "cells b' = cells b"
    by (simp_all add: reveal_ext_def)
  with run vis frame others show ?thesis
    by blast
qed

lemma example_board_counts: "counts_ok example_board"
  by code_simp

lemma example_board_flood:
  "case board_reveal 10 example_board 0 0 of
     Inl e \<Rightarrow> False
   | Inr b' \<Rightarrow> (1, 1) \<in> visible_cells b' \<and> (2, 2) \<notin> visible_cells b'"
  unfolding visible_cells_def mem_Collect_eq by code_simp

theorem flood_reveal_witness:
  "wf_board example_board \<and> counts_ok example_board \<and> (0::nat) < size_b example_board \<and>
   cell_at example_board (0, 0) = CELL_EMPTY \<and>
   size_b example_board * size_b example_board < 10 \<and>
   (\<exists>b'. board_reveal 10 example_board 0 0 = Inr b' \<and>
      visible_cells b' =
        zero_region example_board (0, 0) \<union> border example_board (zero_region example_board (0, 0)) \<and>
      (1, 1) \<in> visible_cells b' \<and> (2, 2) \<notin> visible_cells b')"
proof -
  have sz: "(0::nat) < size_b example_board" "size_b example_board * size_b example_board < 10"
    by (simp_all add: example_board_def)
  have hid: "\<forall>c. in_grid example_board c \<longrightarrow> overlay_at example_board c = OverlayCellHidden"
    using in_grid_index [OF wf_example_board]
    by (simp add: overlay_at_def example_board_def)
  have zero: "cell_at example_board (0, 0) = CELL_EMPTY"
    by (simp add: cell_at_def cell_index_def example_board_def CELL_EMPTY_def)
  from flood_reveal [OF wf_example_board example_board_counts hid sz(1) sz(1) zero sz(2)]
  obtain b' where b': "board_reveal 10 example_board 0 0 = Inr b'"
    "visible_cells b' =
       zero_region example_board (0, 0) \<union> border example_board (zero_region example_board (0, 0))"
    by blast
  from example_board_flood b'(1) have "(1, 1) \<in> visible_cells b' \<and> (2, 2) \<notin> visible_cells b'"
    by simp
  with b' wf_example_board example_board_counts sz zero show ?thesis
    by blast
qed

section \<open>The cells that a reveal visits\<close>

lemma trace_board:
  shows "map_sum id fst (board_reveal_trace fuel b x y) = board_reveal fuel b x y"
    and "map_sum id fst (reveal_block_trace fuel cs b) = reveal_block fuel cs b"
proof (induction fuel b x y and fuel cs b rule: board_reveal_reveal_block.induct)
  case (1 b x y)
  show ?case by simp
next
  case (2 fuel b x y)
  then show ?case
    by (auto simp: Let_def split: sum.splits)
next
  case (3 fuel b)
  show ?case by simp
next
  case (4 fuel i j cs b)
  show ?case
  proof (cases "board_reveal_trace fuel b i j")
    case (Inl e)
    with "4.IH"(1) show ?thesis
      by (cases "board_reveal fuel b i j") auto
  next
    case (Inr r)
    obtain b1 t1 where r: "r = (b1, t1)" by (cases r)
    with Inr "4.IH"(1) have b1: "board_reveal fuel b i j = Inr b1"
      by (cases "board_reveal fuel b i j") auto
    from "4.IH"(2) [OF b1] Inr r b1 show ?thesis
      by (cases "reveal_block_trace fuel cs b1") (auto split: prod.splits)
  qed
qed

lemma trace_Inr:
  "board_reveal_trace fuel b x y = Inr (b', t) \<Longrightarrow> board_reveal fuel b x y = Inr b'"
  "reveal_block_trace fuel cs b = Inr (b', t) \<Longrightarrow> reveal_block fuel cs b = Inr b'"
  using trace_board(1) [of fuel b x y] trace_board(2) [of fuel cs b] by auto

lemma trace_returns:
  "board_reveal fuel b x y = Inr b' \<Longrightarrow> \<exists>t. board_reveal_trace fuel b x y = Inr (b', t)"
  using trace_board(1) [of fuel b x y] by (cases "board_reveal_trace fuel b x y") auto

lemma trace_cells:
  shows "wf_board b \<Longrightarrow> in_grid b (x, y) \<Longrightarrow> board_reveal_trace fuel b x y = Inr (b', t) \<Longrightarrow>
         distinct t \<and> (\<forall>c\<in>set t. in_grid b c \<and> overlay_at b c = OverlayCellHidden \<and>
                                  overlay_at b' c = OverlayCellVisible)"
    and "wf_board b \<Longrightarrow> \<forall>c\<in>set cs. in_grid b c \<Longrightarrow> reveal_block_trace fuel cs b = Inr (b', t) \<Longrightarrow>
         distinct t \<and> (\<forall>c\<in>set t. in_grid b c \<and> overlay_at b c = OverlayCellHidden \<and>
                                  overlay_at b' c = OverlayCellVisible)"
proof (induction fuel b x y and fuel cs b arbitrary: b' t and b' t
    rule: board_reveal_trace_reveal_block_trace.induct)
  case (1 b x y)
  then show ?case by simp
next
  case (2 fuel b x y)
  let ?n = "cell_index b x y"
  let ?b1 = "b\<lparr>overlay := (overlay b)[?n := OverlayCellVisible]\<rparr>"
  have n: "?n < MAX_BOARD_AREA"
    using in_grid_index [OF "2.prems"(1,2)] by simp
  then have len: "?n < length (overlay b)"
    using "2.prems"(1) by (simp add: wf_board_def)
  have vis1: "overlay_at ?b1 (x, y) = OverlayCellVisible"
    using len by (rule overlay_at_update_same)
  show ?case
  proof (cases "overlay b ! ?n = OverlayCellHidden")
    case False
    with "2.prems"(3) n show ?thesis
      by (simp add: Let_def)
  next
    case hidden: True
    then have hid: "overlay_at b (x, y) = OverlayCellHidden"
      by (simp add: overlay_at_def)
    have ext1: "reveal_ext b ?b1"
      using hid by (rule set_visible_ext)
    show ?thesis
    proof (cases "cells b ! ?n = CELL_EMPTY")
      case False
      with hidden "2.prems"(3) n have "b' = ?b1" "t = [(x, y)]"
        by (simp_all add: Let_def)
      with "2.prems"(2) hid vis1 show ?thesis
        by simp
    next
      case True
      with hidden "2.prems"(3) n obtain t' where
        run: "reveal_block_trace fuel (block3 (size_b b) x y) ?b1 = Inr (b', t')" and t: "t = (x, y) # t'"
        by (auto simp: Let_def split: sum.splits)
      have wf1: "wf_board ?b1"
        using "2.prems"(1) by (simp add: wf_board_def)
      have IH: "distinct t' \<and> (\<forall>c\<in>set t'. in_grid ?b1 c \<and> overlay_at ?b1 c = OverlayCellHidden \<and>
                                  overlay_at b' c = OverlayCellVisible)"
        using "2.IH" [OF refl _ _ refl _ wf1 _] n hidden True run block3_in_grid [of _ ?b1 x y]
        by simp
      have "reveals_block ?b1 (block3 (size_b b) x y) b'"
        using trace_Inr(2) [OF run] wf1 block3_in_grid [of _ ?b1 x y]
        by (intro board_reveal_reveals(2)) simp_all
      then have "reveal_ext ?b1 b'"
        by (rule reveals_ext)
      then have "overlay_at b' (x, y) = OverlayCellVisible"
        using vis1 reveal_ext_not_hidden [of ?b1 b' "(x, y)"] by simp
      moreover have "(x, y) \<notin> set t'"
        using IH vis1 by auto
      moreover have "overlay_at b c = OverlayCellHidden" if "c \<in> set t'" for c
        using IH that reveal_ext_hidden_after [OF ext1, of c] by simp
      ultimately show ?thesis
        using IH t "2.prems"(2) hid by auto
    qed
  qed
next
  case (3 fuel b)
  then show ?case by simp
next
  case (4 fuel i j cs b)
  from "4.prems"(3) obtain b1 t1 t2 where
    first: "board_reveal_trace fuel b i j = Inr (b1, t1)" and
    rest: "reveal_block_trace fuel cs b1 = Inr (b', t2)" and t: "t = t1 @ t2"
    by (auto split: sum.splits prod.splits)
  have ext1: "reveal_ext b b1"
    using trace_Inr(1) [OF first] "4.prems"(1,2)
    by (intro reveals_ext(1) board_reveal_reveals(1)) simp_all
  have wf1: "wf_board b1" and grid1: "\<forall>c\<in>set cs. in_grid b1 c"
    using ext1 "4.prems"(1,2) by (simp_all add: reveal_ext_wf reveal_ext_in_grid)
  have ext2: "reveal_ext b1 b'"
    using trace_Inr(2) [OF rest] wf1 grid1
    by (intro reveals_ext(2) board_reveal_reveals(2)) simp_all
  have IH1: "distinct t1 \<and> (\<forall>c\<in>set t1. in_grid b c \<and> overlay_at b c = OverlayCellHidden \<and>
                                overlay_at b1 c = OverlayCellVisible)"
    using "4.IH"(1) [OF _ _ first] "4.prems"(1,2) by simp
  have IH2: "distinct t2 \<and> (\<forall>c\<in>set t2. in_grid b1 c \<and> overlay_at b1 c = OverlayCellHidden \<and>
                                overlay_at b' c = OverlayCellVisible)"
    using "4.IH"(2) [OF first refl wf1 grid1 rest] by simp
  have "set t1 \<inter> set t2 = {}"
    using IH1 IH2 by auto
  moreover have "overlay_at b' c = OverlayCellVisible" if "c \<in> set t1" for c
    using IH1 that reveal_ext_not_hidden [OF ext2, of c] by simp
  moreover have "in_grid b c \<and> overlay_at b c = OverlayCellHidden" if "c \<in> set t2" for c
    using IH2 that reveal_ext_hidden_after [OF ext1, of c] reveal_ext_in_grid [OF ext1, of c] by simp
  ultimately show ?case
    using IH1 IH2 t by auto
qed

lemma trace_length:
  assumes "distinct t" "\<forall>c\<in>set t. in_grid b c"
  shows "length t \<le> size_b b * size_b b"
proof -
  have "set t \<subseteq> set (grid (size_b b))"
    using assms(2) by (auto simp: set_grid in_grid_def)
  then have "card (set t) \<le> card (set (grid (size_b b)))"
    by (intro card_mono) simp_all
  with assms(1) show ?thesis
    by (simp add: distinct_card distinct_grid length_grid)
qed

text \<open>
  Claim C9. On a well-formed board and for a cell of the grid, \<^verbatim>\<open>board_reveal\<close> returns: a
  recursion depth above the number of Hidden cells of the grid, which is at most the area
  \<open>size * size\<close>, is enough, and every such depth gives the same board. The recursion goes on
  only from a Hidden cell, which is made Visible first: the cells it goes on from are
  distinct cells of the grid, at most \<open>size * size\<close> of them, each Hidden before and Visible
  after, and the call leaves fewer Hidden cells than it found when the cell was Hidden.
\<close>

theorem board_reveal_returns:
  assumes "wf_board b" "x < size_b b" "y < size_b b" "size_b b * size_b b < fuel"
  shows "\<exists>b' t. board_reveal fuel b x y = Inr b' \<and>
           (\<forall>fuel'. hidden_count b < fuel' \<longrightarrow> board_reveal fuel' b x y = Inr b') \<and>
           hidden_count b \<le> size_b b * size_b b \<and>
           board_reveal_trace fuel b x y = Inr (b', t) \<and>
           distinct t \<and> length t \<le> size_b b * size_b b \<and>
           (\<forall>c\<in>set t. in_grid b c \<and> overlay_at b c = OverlayCellHidden \<and>
                       overlay_at b' c = OverlayCellVisible) \<and>
           hidden_count b' \<le> hidden_count b \<and>
           (overlay_at b (x, y) = OverlayCellHidden \<longrightarrow> hidden_count b' < hidden_count b)"
proof -
  have g: "in_grid b (x, y)"
    using assms(2,3) by (simp add: in_grid_def)
  have less: "hidden_count b < fuel"
    using assms(4) hidden_count_le [of b] by simp
  from board_reveal_total [OF assms(1) g less] obtain b' where
    b': "board_reveal fuel b x y = Inr b'" and r: "reveals b x y b'"
    by blast
  from trace_returns [OF b'] obtain t where t: "board_reveal_trace fuel b x y = Inr (b', t)"
    by blast
  have cells: "distinct t" "\<forall>c\<in>set t. in_grid b c \<and> overlay_at b c = OverlayCellHidden \<and>
      overlay_at b' c = OverlayCellVisible"
    using trace_cells(1) [OF assms(1) g t] by simp_all
  then have len: "length t \<le> size_b b * size_b b"
    by (intro trace_length) simp_all
  have same: "board_reveal fuel' b x y = Inr b'" if "hidden_count b < fuel'" for fuel'
    using board_reveal_total [OF assms(1) g that] reveals_deterministic(1) [OF r] by auto
  have ext: "reveal_ext b b'"
    using r by (rule reveals_ext)
  have strict: "hidden_count b' < hidden_count b" if h: "overlay_at b (x, y) = OverlayCellHidden"
  proof -
    let ?H = "\<lambda>b. filter (\<lambda>c. overlay_at b c = OverlayCellHidden) (grid (size_b b))"
    have "?H b' = filter (\<lambda>c. overlay_at b' c = OverlayCellHidden) (?H b)"
      using ext reveal_ext_hidden_after [OF ext]
      by (auto simp: reveal_ext_def intro: filter_cong)
    moreover have "(x, y) \<in> set (?H b)"
      using g h by (simp add: set_grid in_grid_def)
    then have "length (filter (\<lambda>c. overlay_at b' c = OverlayCellHidden) (?H b)) < length (?H b)"
      using reveals_target(1) [OF r] by (rule length_filter_less)
    ultimately show ?thesis
      by (simp add: hidden_count_def)
  qed
  from b' same hidden_count_le [of b] t cells len reveal_ext_hidden_count [OF ext] strict
  show ?thesis
    by blast
qed

theorem board_reveal_returns_witness:
  "wf_board example_board \<and> (0::nat) < size_b example_board \<and>
   size_b example_board * size_b example_board < 10 \<and>
   (\<exists>b' t. board_reveal 10 example_board 0 0 = Inr b' \<and>
      board_reveal 20 example_board 0 0 = Inr b' \<and>
      board_reveal_trace 10 example_board 0 0 = Inr (b', t) \<and> distinct t \<and> length t \<le> 9 \<and>
      hidden_count b' < hidden_count example_board)"
proof -
  have sz: "(0::nat) < size_b example_board" "size_b example_board * size_b example_board < 10"
    "size_b example_board * size_b example_board = 9"
    by (simp_all add: example_board_def)
  have hid: "overlay_at example_board (0, 0) = OverlayCellHidden"
    by (simp add: overlay_at_def example_board_def cell_index_def MAX_BOARD_AREA_def
        MAX_BOARD_SIZE_def)
  from board_reveal_returns [OF wf_example_board sz(1) sz(1) sz(2)] obtain b' t where
    b': "board_reveal 10 example_board 0 0 = Inr b'"
      "\<forall>fuel'. hidden_count example_board < fuel' \<longrightarrow> board_reveal fuel' example_board 0 0 = Inr b'"
      "hidden_count example_board \<le> size_b example_board * size_b example_board"
      "board_reveal_trace 10 example_board 0 0 = Inr (b', t)" "distinct t"
      "length t \<le> size_b example_board * size_b example_board"
      "overlay_at example_board (0, 0) = OverlayCellHidden \<longrightarrow>
         hidden_count b' < hidden_count example_board"
    by blast
  from b'(3) sz(2) have "hidden_count example_board < 20"
    by simp
  with b'(2) have "board_reveal 20 example_board 0 0 = Inr b'"
    by blast
  with b'(1,4,5,6,7) hid sz wf_example_board show ?thesis
    by auto
qed

end
